theory Spec2Isabelle
  imports Main "HOL-Library.Word" "HOL-Library.Signed_Division" "HOL-Library.Monad_Syntax"
begin

unbundle bit_operations_syntax

chapter \<open>BitNet accelerator offload driver: host-side C code\<close>

text \<open>
  The C sources embedded here are
  \<^item> \<^verbatim>\<open>software/bitnet_test/bitnet_test_common.h\<close> (weight codec, reference model),
  \<^item> \<^verbatim>\<open>software/test_bitnet.c\<close> (a second, textually identical \<^verbatim>\<open>pack_weights\<close>; \<^verbatim>\<open>main\<close>),
  \<^item> \<^verbatim>\<open>software/bitmamba_fpga/bitnet_fpga.h\<close> (the tiling driver \<^verbatim>\<open>fpga_bitlinear\<close>),
  \<^item> \<^verbatim>\<open>software/mnist/mnist_inference.c\<close> (arg-max, image preprocessing, \<^verbatim>\<open>mode_files\<close>),
  \<^item> \<^verbatim>\<open>software/bitnet_test/test_bitnet_comprehensive.c\<close> (\<^verbatim>\<open>main\<close>).

  Conventions. \<^verbatim>\<open>int8_t\<close>, \<^verbatim>\<open>uint8_t\<close>, \<^verbatim>\<open>int32_t\<close> and \<^verbatim>\<open>uint32_t\<close> data are machine
  words; a signed one is read with \<^const>\<open>sint\<close>, an unsigned one with \<^const>\<open>unat\<close>. C \<^verbatim>\<open>int\<close>
  parameters that only bound loops or index arrays (\<^verbatim>\<open>M\<close>, \<^verbatim>\<open>K\<close>, \<^verbatim>\<open>n\<close>, \<^verbatim>\<open>shift\<close>) are
  \<^typ>\<open>int\<close>. An array is a list. Where the C code would read or write outside an array or
  outside a mapped device window, or would shift by a count outside \<open>[0, 31]\<close>, its
  behaviour is undefined and the embedding returns \<^const>\<open>None\<close> (or, where a function also
  reports errors, a failure of its own). The accelerator behind the memory-mapped registers
  and the files and library calls behind the image loader are parameters of the embedding.
\<close>

type_synonym int8_t = "8 word"
type_synonym uint8_t = "8 word"
type_synonym int32_t = "32 word"
type_synonym uint32_t = "32 word"

section \<open>Weight codec\<close>

subsection \<open>\<^verbatim>\<open>pack_weights\<close>\<close>

text \<open>
  \<^verbatim>\<open>if (weights[i] == 1) enc = 0x1; else if (weights[i] == -1) enc = 0x2; else enc = 0x0;\<close>
  The comparison is on the value promoted to \<^verbatim>\<open>int\<close>.
\<close>

definition enc_weight :: "int8_t \<Rightarrow> uint32_t" where
  "enc_weight w = (if sint w = 1 then 1 else if sint w = - 1 then 2 else 0)"

text \<open>One iteration of the loop body: \<^verbatim>\<open>out[i / 16] |= enc << ((i % 16) * 2)\<close>.\<close>

definition pack_step :: "int8_t list \<Rightarrow> nat \<Rightarrow> uint32_t list \<Rightarrow> uint32_t list" where
  "pack_step weights i out =
     out[i div 16 := (out ! (i div 16)) OR push_bit ((i mod 16) * 2) (enc_weight (weights ! i))]"

text \<open>\<^verbatim>\<open>memset(out, 0, 16)\<close>, then the loop \<^verbatim>\<open>for (i = 0; i < 64; i++)\<close>.\<close>

definition pack_loop :: "int8_t list \<Rightarrow> nat \<Rightarrow> uint32_t list" where
  "pack_loop weights n = fold (pack_step weights) [0..<n] (replicate 4 0)"

text \<open>
  \<^verbatim>\<open>static void pack_weights(const int8_t weights[64], uint32_t out[4])\<close>. The loop reads
  \<^verbatim>\<open>weights[0..63]\<close>: an array shorter than 64 is read out of bounds.
\<close>

definition pack_weights :: "int8_t list \<Rightarrow> uint32_t list option" where
  "pack_weights weights =
     (if length weights < 64 then None else Some (pack_loop weights 64))"

text \<open>
  The 2-bit field of weight position \<open>i\<close> in a packed tile, as the header comment lays it
  out (\<open>2 bits per weight\<close>, 16 per 32-bit word, position \<open>i\<close> in word \<open>i / 16\<close> at bit
  \<open>(i % 16) * 2\<close>). This is the reading side of the codec; the C sources contain no decoder.
\<close>

definition field2 :: "uint32_t list \<Rightarrow> nat \<Rightarrow> uint32_t" where
  "field2 ws i = drop_bit ((i mod 16) * 2) (ws ! (i div 16)) AND 3"

text \<open>The decoding table of the header comment: \<open>00 = 0\<close>, \<open>01 = +1\<close>, \<open>10 = -1\<close>,
  \<open>11 = reserved\<close>.\<close>

definition decode2 :: "uint32_t \<Rightarrow> int8_t option" where
  "decode2 c = (if c = 0 then Some 0 else if c = 1 then Some 1
                else if c = 2 then Some (- 1) else None)"

subsection \<open>\<^verbatim>\<open>write_weight_matrix\<close>\<close>

definition NUM_PES :: int where
  "NUM_PES = 64"

text \<open>\<^verbatim>\<open>#define DDR3_SPAN 0x00100000\<close>: the size in bytes of the window \<^verbatim>\<open>g_ddr3\<close> maps.\<close>

definition DDR3_SPAN :: nat where
  "DDR3_SPAN = 0x00100000"

text \<open>\<^verbatim>\<open>int tiles_per_row = (K + NUM_PES - 1) / NUM_PES;\<close> with C's truncating division.\<close>

definition tiles_per_row :: "int \<Rightarrow> int" where
  "tiles_per_row K = (K + NUM_PES - 1) sdiv NUM_PES"

text \<open>
  The inner loop that fills \<^verbatim>\<open>chunk[64]\<close>:
  \<^verbatim>\<open>col = col_start + i; if (col < K) chunk[i] = wmat[row * K + col]; else chunk[i] = 0;\<close>
\<close>

definition tile_chunk :: "int8_t list \<Rightarrow> int \<Rightarrow> nat \<Rightarrow> nat \<Rightarrow> int8_t list" where
  "tile_chunk wmat K row tile =
     map (\<lambda>i. let col = tile * nat NUM_PES + i
              in if int col < K then wmat ! (row * nat K + col) else 0) [0..<64]"

text \<open>
  The body of the tile loop. The store \<^verbatim>\<open>g_ddr3\<close> is indexed in \<^verbatim>\<open>uint32_t\<close> units:
  \<^verbatim>\<open>word_offset = (row * tiles_per_row + tile) * 4; g_ddr3[word_offset + i] = packed[i]\<close>.
\<close>

definition write_tile ::
  "int8_t list \<Rightarrow> int \<Rightarrow> nat \<Rightarrow> nat \<Rightarrow> (nat \<Rightarrow> uint32_t) \<Rightarrow> (nat \<Rightarrow> uint32_t) option" where
  "write_tile wmat K row tile ddr3 =
     (case pack_weights (tile_chunk wmat K row tile) of
        None \<Rightarrow> None
      | Some packed \<Rightarrow>
          let word_offset = (row * nat (tiles_per_row K) + tile) * 4
          in Some (fold (\<lambda>i m. m(word_offset + i := packed ! i)) [0..<4] ddr3))"

text \<open>A loop whose body may fail: the first failure ends it.\<close>

fun ofold :: "('a \<Rightarrow> 's \<Rightarrow> 's option) \<Rightarrow> 'a list \<Rightarrow> 's \<Rightarrow> 's option" where
  "ofold f [] s = Some s"
| "ofold f (x # xs) s = (case f x s of None \<Rightarrow> None | Some s' \<Rightarrow> ofold f xs s')"

text \<open>
  \<^verbatim>\<open>static void write_weight_matrix(const int8_t *wmat, int M, int K)\<close>, with the store
  passed in and returned. The loops read \<^verbatim>\<open>wmat[row * K + col]\<close> for \<open>row < M\<close>,
  \<open>col < K\<close> and write words \<open>0 .. M * tiles_per_row * 4 - 1\<close> of the mapped window;
  the first guard is the out-of-bounds read, the second the write past the window.
\<close>

definition write_weight_matrix ::
  "int8_t list \<Rightarrow> int \<Rightarrow> int \<Rightarrow> (nat \<Rightarrow> uint32_t) \<Rightarrow> (nat \<Rightarrow> uint32_t) option" where
  "write_weight_matrix wmat M K ddr3 =
     (if 0 < M \<and> 0 < K \<and> length wmat < nat (M * K) then None
      else if 0 < M \<and> 0 < K \<and> DDR3_SPAN < nat (M * tiles_per_row K * 16) then None
      else ofold (\<lambda>row. ofold (\<lambda>tile. write_tile wmat K row tile)
                          [0..<nat (tiles_per_row K)])
                 [0..<nat M] ddr3)"

text \<open>
  Reading side of the layout: the four words stored for tile \<open>(row, tile)\<close>, found at byte
  offset \<open>row * tiles_per_row * 16 + tile * 16\<close> of the window (the layout comment above
  \<^verbatim>\<open>write_weight_matrix\<close>), and the 2-bit code of matrix position \<open>(row, col)\<close>.
\<close>

definition tile_byte_offset :: "int \<Rightarrow> nat \<Rightarrow> nat \<Rightarrow> nat" where
  "tile_byte_offset K row tile = row * nat (tiles_per_row K) * 16 + tile * 16"

definition tile_words :: "(nat \<Rightarrow> uint32_t) \<Rightarrow> nat \<Rightarrow> uint32_t list" where
  "tile_words ddr3 byte_offset = map (\<lambda>i. ddr3 (byte_offset div 4 + i)) [0..<4]"

definition stored_code :: "(nat \<Rightarrow> uint32_t) \<Rightarrow> int \<Rightarrow> nat \<Rightarrow> nat \<Rightarrow> uint32_t" where
  "stored_code ddr3 K row col =
     field2 (tile_words ddr3 (tile_byte_offset K row (col div 64))) (col mod 64)"

definition ternary :: "int8_t \<Rightarrow> bool" where
  "ternary w \<longleftrightarrow> sint w = - 1 \<or> sint w = 0 \<or> sint w = 1"

text \<open>The word that index \<open>a\<close> of the window holds once the matrix is written: word
  \<open>a mod 4\<close> of the packed tile number \<open>a div 4\<close>, counted row by row.\<close>

definition expected_word :: "int8_t list \<Rightarrow> int \<Rightarrow> nat \<Rightarrow> uint32_t" where
  "expected_word wmat K a =
     pack_loop (tile_chunk wmat K ((a div 4) div nat (tiles_per_row K))
                                  ((a div 4) mod nat (tiles_per_row K))) 64 ! (a mod 4)"

section \<open>Reference model\<close>

text \<open>
  \<^verbatim>\<open>static int8_t compute_expected_row(const int8_t *weights, const int8_t *acts, int K, int shift)\<close>.
  The accumulator is an \<^verbatim>\<open>int32_t\<close>; its additions are those of a 32-bit word. \<^verbatim>\<open>>>\<close> on
  a negative \<^verbatim>\<open>int32_t\<close> is the arithmetic shift (as the comment in the source says, and as
  the compilers for the target do). The loop reads \<^verbatim>\<open>weights[0..K-1]\<close> and
  \<^verbatim>\<open>acts[0..K-1]\<close>.
\<close>

definition mac_step :: "int8_t list \<Rightarrow> int8_t list \<Rightarrow> nat \<Rightarrow> int32_t \<Rightarrow> int32_t" where
  "mac_step weights acts i acc = acc + scast (weights ! i) * scast (acts ! i)"

definition clamp_int8 :: "int32_t \<Rightarrow> int32_t" where
  "clamp_int8 acc =
     (let acc = (if 127 <s acc then 127 else acc)
      in if acc <s - 128 then - 128 else acc)"

definition compute_expected_row :: "int8_t list \<Rightarrow> int8_t list \<Rightarrow> int \<Rightarrow> int \<Rightarrow> int8_t option" where
  "compute_expected_row weights acts K shift =
     (if length weights < nat K \<or> length acts < nat K then None
      else if shift < 0 \<or> 32 \<le> shift then None
      else let acc = fold (mac_step weights acts) [0..<nat K] 0;
               acc = signed_drop_bit (nat shift) acc;
               acc = clamp_int8 acc
           in Some (ucast acc))"

text \<open>The clamp of the specification, on mathematical integers.\<close>

definition clamp :: "int \<Rightarrow> int \<Rightarrow> int \<Rightarrow> int" where
  "clamp x lo hi = (if x < lo then lo else if hi < x then hi else x)"

definition dot :: "int8_t list \<Rightarrow> int8_t list \<Rightarrow> nat \<Rightarrow> int" where
  "dot weights acts K = (\<Sum>k<K. sint (weights ! k) * sint (acts ! k))"

section \<open>Layer pipeline: arg-max\<close>

text \<open>
  \<^verbatim>\<open>static int argmax_int8(const int8_t *buf, int n)\<close>:
  \<^verbatim>\<open>best = 0; for (i = 1; i < n; i++) if (buf[i] > buf[best]) best = i; return best;\<close>
  For \<open>n \<le> 1\<close> nothing is read.
\<close>

definition argmax_step :: "int8_t list \<Rightarrow> nat \<Rightarrow> nat \<Rightarrow> nat" where
  "argmax_step buf i best = (if sint (buf ! best) < sint (buf ! i) then i else best)"

definition argmax_int8 :: "int8_t list \<Rightarrow> int \<Rightarrow> int option" where
  "argmax_int8 buf n =
     (if 1 < n \<and> length buf < nat n then None
      else Some (int (fold (argmax_step buf) [1..<nat n] 0)))"

section \<open>Image preprocessing\<close>

text \<open>
  A C function that returns \<open>-1\<close> has failed with \<open>Returned_Error\<close>; \<open>Undefined\<close> marks an
  execution that leaves defined behaviour (signed overflow).
\<close>

datatype failure = Returned_Error | Undefined

text \<open>
  The files: \<open>fs name\<close> is the content of the file, or \<^const>\<open>None\<close> where \<^verbatim>\<open>fopen\<close> fails.
\<close>

type_synonym file_system = "string \<Rightarrow> uint8_t list option"

text \<open>
  The header scan of \<^verbatim>\<open>load_pgm\<close> (the \<^verbatim>\<open>fgets\<close>/\<^verbatim>\<open>sscanf\<close> loop over the magic line, the
  comment lines and the three numbers) is a parameter: from the bytes of the file it gives
  \<open>width\<close>, \<open>height\<close>, \<open>maxval\<close> and the unread rest of the file, or \<^const>\<open>None\<close> where
  \<^verbatim>\<open>load_pgm\<close> returns \<open>-1\<close> for a wrong magic or a truncated header.
\<close>

type_synonym pgm_scan = "uint8_t list \<Rightarrow> (int \<times> int \<times> int \<times> uint8_t list) option"

text \<open>
  \<^verbatim>\<open>static int load_pgm(const char *filename, uint8_t *buf, int buf_size, int *out_width, int *out_height)\<close>
  after the header: the checks on the dimensions, the size check and the \<^verbatim>\<open>fread\<close> of
  \<open>width * height\<close> bytes. The result is the part of \<^verbatim>\<open>buf\<close> that \<^verbatim>\<open>fread\<close> has filled,
  with the two dimensions.
\<close>

definition load_pgm ::
  "pgm_scan \<Rightarrow> file_system \<Rightarrow> string \<Rightarrow> int \<Rightarrow> failure + (uint8_t list \<times> int \<times> int)" where
  "load_pgm scan fs filename buf_size =
     (case fs filename of
        None \<Rightarrow> Inl Returned_Error
      | Some bytes \<Rightarrow>
          (case scan bytes of
             None \<Rightarrow> Inl Returned_Error
           | Some (width, height, maxval, pixels) \<Rightarrow>
               if width \<le> 0 \<or> height \<le> 0 \<or> maxval \<le> 0 \<or> 255 < maxval
               then Inl Returned_Error
               else if 2 ^ 31 \<le> width * height then Inl Undefined
               else if buf_size < width * height then Inl Returned_Error
               else if length pixels < nat (width * height) then Inl Returned_Error
               else Inr (take (nat (width * height)) pixels, width, height)))"

text \<open>
  \<^verbatim>\<open>resize_nearest\<close>: \<^verbatim>\<open>sy = y * src_h / dst_h; sx = x * src_w / dst_w;\<close>
  \<^verbatim>\<open>dst[y * dst_w + x] = src[sy * src_w + sx]\<close>. With \<open>sy < src_h\<close> and \<open>sx < src_w\<close> the
  index read is below \<open>src_w * src_h\<close>.
\<close>

definition resize_nearest :: "uint8_t list \<Rightarrow> nat \<Rightarrow> nat \<Rightarrow> nat \<Rightarrow> nat \<Rightarrow> uint8_t list" where
  "resize_nearest src src_w src_h dst_w dst_h =
     concat (map (\<lambda>y. map (\<lambda>x. src ! ((y * src_h div dst_h) * src_w + x * src_w div dst_w))
                          [0..<dst_w])
                 [0..<dst_h])"

definition MAX_IMG_DIM :: int where
  "MAX_IMG_DIM = 1024"

definition MNIST_DIM :: int where
  "MNIST_DIM = 28"

definition MNIST_PIXELS :: nat where
  "MNIST_PIXELS = 28 * 28"

text \<open>
  The first part of \<^verbatim>\<open>preprocess_image\<close>, up to the filled \<^verbatim>\<open>img28\<close>: the two magic
  bytes are read (\<^verbatim>\<open>'P'\<close> is \<open>0x50\<close>, \<^verbatim>\<open>'5'\<close> is \<open>0x35\<close>); a PGM file goes through
  \<^verbatim>\<open>load_pgm\<close> and is copied or resized, any other file must have exactly 784 bytes. The
  result carries \<^verbatim>\<open>img28\<close>, \<^verbatim>\<open>*orig_w\<close>, \<^verbatim>\<open>*orig_h\<close> and \<^verbatim>\<open>*resized\<close>.
\<close>

definition load_img28 ::
  "pgm_scan \<Rightarrow> file_system \<Rightarrow> string \<Rightarrow> failure + (uint8_t list \<times> int \<times> int \<times> int)" where
  "load_img28 scan fs filename =
     (case fs filename of
        None \<Rightarrow> Inl Returned_Error
      | Some bytes \<Rightarrow>
          if length bytes < 2 then Inl Returned_Error
          else if bytes ! 0 = 0x50 \<and> bytes ! 1 = 0x35 then
            (case load_pgm scan fs filename (MAX_IMG_DIM * MAX_IMG_DIM) of
               Inl e \<Rightarrow> Inl e
             | Inr (raw_buf, width, height) \<Rightarrow>
                 if width = MNIST_DIM \<and> height = MNIST_DIM
                 then Inr (take MNIST_PIXELS raw_buf, width, height, 0)
                 else Inr (resize_nearest raw_buf (nat width) (nat height)
                             (nat MNIST_DIM) (nat MNIST_DIM), width, height, 1))
          else if length bytes \<noteq> MNIST_PIXELS then Inl Returned_Error
          else Inr (take MNIST_PIXELS bytes, 28, 28, 0))"

text \<open>
  The conversion loop: \<^verbatim>\<open>output[i] = (int8_t)(img28[i] * 127 / 255)\<close>, the pixel promoted
  to \<^verbatim>\<open>int\<close>, C's truncating division, then the cast.
\<close>

definition to_activation :: "uint8_t \<Rightarrow> int8_t" where
  "to_activation pixel = word_of_int ((uint pixel * 127) sdiv 255)"

definition preprocess_image ::
  "pgm_scan \<Rightarrow> file_system \<Rightarrow> string \<Rightarrow> failure + (int8_t list \<times> int \<times> int \<times> int)" where
  "preprocess_image scan fs filename =
     (case load_img28 scan fs filename of
        Inl e \<Rightarrow> Inl e
      | Inr (img28, orig_w, orig_h, resized) \<Rightarrow>
          Inr (map to_activation img28, orig_w, orig_h, resized))"

section \<open>Process exit codes\<close>

subsection \<open>\<^verbatim>\<open>mnist_inference.c\<close>: \<^verbatim>\<open>mode_files\<close>\<close>

text \<open>
  The two calls of the loop body are parameters: \<open>preprocess name\<close> is \<^const>\<open>None\<close> where
  \<^verbatim>\<open>preprocess_image\<close> returns \<open>-1\<close> (the file cannot be opened or read, or is
  malformed) and the activations otherwise; \<open>infer i act\<close> is what \<^verbatim>\<open>fpga_inference\<close>
  returns for the image \<^verbatim>\<open>argv[i]\<close>: the predicted class, or \<open>-1\<close> when a layer timed out.
  One step of the loop updates \<^verbatim>\<open>count\<close>; both failures \<^verbatim>\<open>continue\<close>.
\<close>

definition mode_files_step ::
  "(string \<Rightarrow> int8_t list option) \<Rightarrow> (nat \<Rightarrow> int8_t list \<Rightarrow> int) \<Rightarrow> string list \<Rightarrow> nat \<Rightarrow> int \<Rightarrow> int" where
  "mode_files_step preprocess infer argv i count =
     (case preprocess (argv ! i) of
        None \<Rightarrow> count
      | Some activations \<Rightarrow> if infer i activations < 0 then count else count + 1)"

text \<open>
  \<^verbatim>\<open>static int mode_files(int argc, char **argv, int start_idx)\<close>, \<^verbatim>\<open>argc\<close> being the length
  of \<^verbatim>\<open>argv\<close>: \<^verbatim>\<open>if (count == 0) return 1; ... return 0;\<close>
\<close>

definition mode_files ::
  "(string \<Rightarrow> int8_t list option) \<Rightarrow> (nat \<Rightarrow> int8_t list \<Rightarrow> int) \<Rightarrow> string list \<Rightarrow> nat \<Rightarrow> int" where
  "mode_files preprocess infer argv start_idx =
     (let count = fold (mode_files_step preprocess infer argv) [start_idx..<length argv] 0
      in if count = 0 then 1 else 0)"

text \<open>
  \<^verbatim>\<open>main\<close> of \<^verbatim>\<open>mnist_inference.c\<close>. \<open>mmap_ok\<close> says whether \<^verbatim>\<open>mmap_init\<close> succeeds;
  \<open>benchmark\<close> and \<open>dir\<close> are what \<^verbatim>\<open>mode_benchmark\<close> and \<^verbatim>\<open>mode_dir\<close> return.
\<close>

definition mnist_main ::
  "bool \<Rightarrow> int \<Rightarrow> (string \<Rightarrow> int) \<Rightarrow> (string \<Rightarrow> int8_t list option) \<Rightarrow>
   (nat \<Rightarrow> int8_t list \<Rightarrow> int) \<Rightarrow> string list \<Rightarrow> int" where
  "mnist_main mmap_ok benchmark dir preprocess infer argv =
     (if length argv < 2 then 1
      else let is_benchmark = (argv ! 1 = ''--benchmark'');
               is_dir = (argv ! 1 = ''--dir'')
           in if is_dir \<and> length argv < 3 then 1
              else if \<not> mmap_ok then 1
              else if is_benchmark then benchmark
              else if is_dir then dir (argv ! 2)
              else mode_files preprocess infer argv 1)"

subsection \<open>\<^verbatim>\<open>test_bitnet.c\<close>: \<^verbatim>\<open>main\<close>\<close>

text \<open>What a test observes of one accelerator run: \<^verbatim>\<open>wait_done\<close> times out, or the low
  byte of \<^verbatim>\<open>RESULT[0]\<close> is read.\<close>

datatype hw_run = Timeout | Result int8_t

text \<open>Each test returns 0 on a timeout and otherwise \<^verbatim>\<open>pass\<close>, which is 1 iff the result is
  the expected value.\<close>

definition check_result :: "int \<Rightarrow> hw_run \<Rightarrow> int" where
  "check_result expected run =
     (case run of Timeout \<Rightarrow> 0 | Result r \<Rightarrow> if sint r = expected then 1 else 0)"

definition test_identity :: "hw_run \<Rightarrow> int" where
  "test_identity = check_result 64"

definition test_zero_weights :: "hw_run \<Rightarrow> int" where
  "test_zero_weights = check_result 0"

definition test_negate :: "hw_run \<Rightarrow> int" where
  "test_negate = check_result (- 64)"

definition test_mixed :: "hw_run \<Rightarrow> int" where
  "test_mixed = check_result 0"

definition test_clamp :: "hw_run \<Rightarrow> int" where
  "test_clamp = check_result 127"

text \<open>
  \<^verbatim>\<open>main\<close>: the three set-up steps (\<^verbatim>\<open>open\<close>, two \<^verbatim>\<open>mmap\<close>) each \<^verbatim>\<open>return 1\<close> on
  failure; then \<^verbatim>\<open>passed\<close> sums the five tests and
  \<^verbatim>\<open>return (passed == total) ? 0 : 1\<close> with \<^verbatim>\<open>total = 5\<close>.
\<close>

definition test_bitnet_main ::
  "bool \<Rightarrow> bool \<Rightarrow> bool \<Rightarrow> hw_run \<Rightarrow> hw_run \<Rightarrow> hw_run \<Rightarrow> hw_run \<Rightarrow> hw_run \<Rightarrow> int" where
  "test_bitnet_main open_ok lw_ok ddr3_ok r1 r2 r3 r4 r5 =
     (if \<not> open_ok then 1
      else if \<not> lw_ok then 1
      else if \<not> ddr3_ok then 1
      else let passed = 0 + test_identity r1 + test_zero_weights r2 + test_negate r3
                          + test_mixed r4 + test_clamp r5;
               total = 5
           in if passed = total then 0 else 1)"

subsection \<open>\<^verbatim>\<open>test_bitnet_comprehensive.c\<close>: \<^verbatim>\<open>main\<close>\<close>

record counters =
  g_tests_passed :: int
  g_tests_failed :: int
  g_tests_total :: int

definition TEST_PASS :: "counters \<Rightarrow> counters" where
  "TEST_PASS c = c\<lparr>g_tests_passed := g_tests_passed c + 1, g_tests_total := g_tests_total c + 1\<rparr>"

definition TEST_FAIL :: "counters \<Rightarrow> counters" where
  "TEST_FAIL c = c\<lparr>g_tests_failed := g_tests_failed c + 1, g_tests_total := g_tests_total c + 1\<rparr>"

text \<open>
  A registered test function reaches a sequence of \<^verbatim>\<open>TEST_PASS\<close>/\<^verbatim>\<open>TEST_FAIL\<close> (directly
  or through an \<^verbatim>\<open>ASSERT_\<close> macro; a timeout of \<^verbatim>\<open>run_test\<close> is a \<^verbatim>\<open>TEST_FAIL\<close>). Which ones
  depends on the accelerator, so a test is given by its name and the outcomes of its checks,
  \<^const>\<open>True\<close> for a pass.
\<close>

definition run_checks :: "bool list \<Rightarrow> counters \<Rightarrow> counters" where
  "run_checks outcomes c = fold (\<lambda>ok c. if ok then TEST_PASS c else TEST_FAIL c) outcomes c"

text \<open>\<^verbatim>\<open>strncmp(name, filter, strlen(filter)) != 0\<close> skips the test: the filter
  (\<open>filter_str\<close>, \<^const>\<open>None\<close> without a command-line argument) must be a prefix of the name.\<close>

definition selected :: "string option \<Rightarrow> string \<Rightarrow> bool" where
  "selected filter_str name =
     (case filter_str of None \<Rightarrow> True | Some f \<Rightarrow> take (length f) name = f)"

definition comprehensive_main ::
  "bool \<Rightarrow> string option \<Rightarrow> (string \<times> bool list) list \<Rightarrow> int" where
  "comprehensive_main mmap_ok filter_str test_registry =
     (if \<not> mmap_ok then 1
      else let c = fold (\<lambda>(name, outcomes) c. if selected filter_str name then run_checks outcomes c else c)
                        test_registry
                        \<lparr>g_tests_passed = 0, g_tests_failed = 0, g_tests_total = 0\<rparr>
           in if g_tests_failed c = 0 then 0 else 1)"

subsection \<open>Notions used to state the exit codes\<close>

text \<open>Image \<^verbatim>\<open>argv[i]\<close> is processed: it is preprocessed and classified without a timeout.\<close>

definition image_processed ::
  "(string \<Rightarrow> int8_t list option) \<Rightarrow> (nat \<Rightarrow> int8_t list \<Rightarrow> int) \<Rightarrow> string list \<Rightarrow> nat \<Rightarrow> bool" where
  "image_processed preprocess infer argv i =
     (case preprocess (argv ! i) of None \<Rightarrow> False | Some activations \<Rightarrow> 0 \<le> infer i activations)"

text \<open>A run of \<^verbatim>\<open>mnist_inference\<close> on three files: the first cannot be opened, the
  second times out on the accelerator, the third is classified as a 7.\<close>

definition sample_preprocess :: "string \<Rightarrow> int8_t list option" where
  "sample_preprocess name = (if name = ''missing.pgm'' then None else Some (replicate 784 0))"

definition sample_infer :: "nat \<Rightarrow> int8_t list \<Rightarrow> int" where
  "sample_infer i activations = (if i = 2 then - 1 else 7)"

definition sample_dir :: "string \<Rightarrow> int" where
  "sample_dir path = 0"

definition sample_argv :: "string list" where
  "sample_argv = [''mnist_inference'', ''missing.pgm'', ''slow.raw'', ''seven.raw'']"

section \<open>The tiling driver\<close>

subsection \<open>Register map of \<^verbatim>\<open>bitnet_fpga.h\<close>\<close>

definition REG_CTRL :: uint32_t where
  "REG_CTRL = 0x00"

definition REG_STATUS :: uint32_t where
  "REG_STATUS = 0x04"

definition REG_WEIGHT_BASE :: uint32_t where
  "REG_WEIGHT_BASE = 0x08"

definition REG_DIM_M :: uint32_t where
  "REG_DIM_M = 0x0C"

definition REG_DIM_K :: uint32_t where
  "REG_DIM_K = 0x10"

definition REG_SHIFT_AMT :: uint32_t where
  "REG_SHIFT_AMT = 0x14"

definition REG_ACT_BASE :: uint32_t where
  "REG_ACT_BASE = 0x80"

definition REG_RES_BASE :: uint32_t where
  "REG_RES_BASE = 0x4000"

definition FPGA_MAX_DIM_K :: int where
  "FPGA_MAX_DIM_K = 2048"

definition FPGA_MAX_DIM_M :: int where
  "FPGA_MAX_DIM_M = 1024"

subsection \<open>The accelerator behind the registers\<close>

text \<open>
  Modelled from the spec: the accelerator itself (the hardware behind the register window
  \<^verbatim>\<open>fpga_bitnet\<close>) is not among the C sources. By the register map of the header and of the
  specification (its sections 3, 4.3 and 6), WEIGHT_BASE, DIM_M, DIM_K and SHIFT_AMT hold
  what was written to them; \<open>ACTIVATION[i]\<close> at \<open>0x80 + 4 * i\<close> holds what was written and
  keeps it across invocations; writing bit 0 of CTRL is a start pulse, which launches a
  computation on the configuration and activations present at that moment; STATUS (bit 1 =
  done) and \<open>RESULT[i]\<close> at \<open>0x4000 + 4 * i\<close> are read-only and answered by the accelerator.

  A \<open>launch\<close> is what the accelerator is given at a start pulse.
\<close>

record launch =
  l_weight_base :: uint32_t
  l_dim_m :: uint32_t
  l_dim_k :: uint32_t
  l_shift_amt :: uint32_t
  l_act :: "nat \<Rightarrow> uint32_t"

text \<open>
  Modelled from the spec: what the accelerator answers is left open. \<open>status_word n l p\<close> is
  the STATUS word at the \<open>p\<close>-th poll after the \<open>n\<close>-th start pulse (counted from 0), which
  launched \<open>l\<close>; \<open>result_word n l i\<close> is \<open>RESULT[i]\<close> read after that launch.
\<close>

record accelerator =
  status_word :: "nat \<Rightarrow> launch \<Rightarrow> nat \<Rightarrow> uint32_t"
  result_word :: "nat \<Rightarrow> launch \<Rightarrow> nat \<Rightarrow> uint32_t"

text \<open>The state of the register window: the writable registers, the start pulses so far
  (oldest first) and the number of STATUS reads since the last one.\<close>

record fpga =
  weight_base_reg :: uint32_t
  dim_m_reg :: uint32_t
  dim_k_reg :: uint32_t
  shift_amt_reg :: uint32_t
  act_buf :: "nat \<Rightarrow> uint32_t"
  launches :: "launch list"
  polls :: nat

definition current_launch :: "fpga \<Rightarrow> launch" where
  "current_launch d =
     \<lparr>l_weight_base = weight_base_reg d, l_dim_m = dim_m_reg d, l_dim_k = dim_k_reg d,
      l_shift_amt = shift_amt_reg d, l_act = act_buf d\<rparr>"

text \<open>
  \<^verbatim>\<open>static inline void fpga_reg_write(uint32_t offset, uint32_t val)\<close>:
  \<^verbatim>\<open>fpga_bitnet[offset / 4] = val\<close>, a store into the register window.
  Modelled from the spec: the effect of the store on the accelerator, register by register;
  an offset that is no writable register of the map has no modelled effect (\<^const>\<open>None\<close>).
  The activation array has \<^verbatim>\<open>FPGA_MAX_DIM_K\<close> entries.
\<close>

definition fpga_reg_write :: "uint32_t \<Rightarrow> uint32_t \<Rightarrow> fpga \<Rightarrow> fpga option" where
  "fpga_reg_write offset val d =
     (if offset div 4 = REG_CTRL div 4 then
        Some (if bit val 0
              then d\<lparr>launches := launches d @ [current_launch d], polls := 0\<rparr>
              else d)
      else if offset div 4 = REG_WEIGHT_BASE div 4 then Some (d\<lparr>weight_base_reg := val\<rparr>)
      else if offset div 4 = REG_DIM_M div 4 then Some (d\<lparr>dim_m_reg := val\<rparr>)
      else if offset div 4 = REG_DIM_K div 4 then Some (d\<lparr>dim_k_reg := val\<rparr>)
      else if offset div 4 = REG_SHIFT_AMT div 4 then Some (d\<lparr>shift_amt_reg := val\<rparr>)
      else if REG_ACT_BASE div 4 \<le> offset div 4
              \<and> offset div 4 < REG_ACT_BASE div 4 + word_of_int FPGA_MAX_DIM_K then
        Some (d\<lparr>act_buf := (act_buf d)(unat (offset div 4 - REG_ACT_BASE div 4) := val)\<rparr>)
      else None)"

text \<open>
  \<^verbatim>\<open>static inline uint32_t fpga_reg_read(uint32_t offset)\<close>:
  \<^verbatim>\<open>return fpga_bitnet[offset / 4]\<close>.
  Modelled from the spec: STATUS and the result array are answered by the accelerator for
  the last launch; the result array has \<^verbatim>\<open>FPGA_MAX_DIM_M\<close> entries. Reads of other offsets,
  or before any launch, are not modelled (\<^const>\<open>None\<close>); the driver makes none.
\<close>

definition fpga_reg_read :: "accelerator \<Rightarrow> uint32_t \<Rightarrow> fpga \<Rightarrow> (uint32_t \<times> fpga) option" where
  "fpga_reg_read hw offset d =
     (if launches d = [] then None
      else let n = length (launches d) - 1; l = last (launches d) in
        if offset div 4 = REG_STATUS div 4 then
          Some (status_word hw n l (polls d), d\<lparr>polls := polls d + 1\<rparr>)
        else if REG_RES_BASE div 4 \<le> offset div 4
                \<and> offset div 4 < REG_RES_BASE div 4 + word_of_int FPGA_MAX_DIM_M then
          Some (result_word hw n l (unat (offset div 4 - REG_RES_BASE div 4)), d)
        else None)"

subsection \<open>\<^verbatim>\<open>fpga_wait_done\<close>\<close>

text \<open>
  \<^verbatim>\<open>while (timeout_us > 0) { st = fpga_reg_read(REG_STATUS); if (st & 0x2) return 0;\<close>
  \<^verbatim>\<open>usleep(10); timeout_us -= 10; } return -1;\<close>
\<close>

function fpga_wait_done :: "accelerator \<Rightarrow> int \<Rightarrow> fpga \<Rightarrow> (int \<times> fpga) option" where
  "fpga_wait_done hw timeout_us d =
     (if 0 < timeout_us then
        (case fpga_reg_read hw REG_STATUS d of
           None \<Rightarrow> None
         | Some (st, d') \<Rightarrow>
             if st AND 0x2 \<noteq> 0 then Some (0, d')
             else fpga_wait_done hw (timeout_us - 10) d')
      else Some (- 1, d))"
  by pat_completeness auto
termination
  by (relation "measure (\<lambda>(hw, timeout_us, d). nat timeout_us)") auto

declare fpga_wait_done.simps [simp del]

subsection \<open>\<^verbatim>\<open>fpga_bitlinear\<close>\<close>

text \<open>\<^verbatim>\<open>fpga_reg_write(REG_ACT_BASE + i * 4, (uint32_t)(uint8_t)activations[i])\<close>\<close>

definition write_activation :: "int8_t list \<Rightarrow> nat \<Rightarrow> fpga \<Rightarrow> fpga option" where
  "write_activation activations i d =
     fpga_reg_write (REG_ACT_BASE + word_of_nat i * 4) (ucast (activations ! i)) d"

text \<open>\<^verbatim>\<open>memset(&results[rows_done], 0, tile_m * sizeof(int32_t))\<close>\<close>

definition zero_fill :: "int32_t list \<Rightarrow> nat \<Rightarrow> nat \<Rightarrow> int32_t list" where
  "zero_fill results rows_done tile_m =
     fold (\<lambda>i rs. rs[rows_done + i := 0]) [0..<tile_m] results"

text \<open>\<^verbatim>\<open>results[rows_done + i] = (int32_t)fpga_reg_read(REG_RES_BASE + i * 4)\<close>\<close>

definition read_result ::
  "accelerator \<Rightarrow> nat \<Rightarrow> nat \<Rightarrow> int32_t list \<times> fpga \<Rightarrow> (int32_t list \<times> fpga) option" where
  "read_result hw rows_done i s =
     (case s of (results, d) \<Rightarrow>
        do { (v, d') \<leftarrow> fpga_reg_read hw (REG_RES_BASE + word_of_nat i * 4) d;
             Some (results[rows_done + i := v], d') })"

text \<open>
  The body of the \<^verbatim>\<open>while (rows_done < M)\<close> loop for one tile: configure, pulse START,
  wait one second, then zero-fill and report on a timeout, or read the tile's results. The
  second component collects the offsets reported on \<^verbatim>\<open>stderr\<close>
  (\<^verbatim>\<open>"fpga_bitlinear: timeout at M-tile offset %d"\<close>).
\<close>

definition run_tile ::
  "accelerator \<Rightarrow> uint32_t \<Rightarrow> int \<Rightarrow> int \<Rightarrow> int32_t list \<times> int list \<times> fpga \<Rightarrow>
   (int32_t list \<times> int list \<times> fpga) option" where
  "run_tile hw tile_weight_base tile_m rows_done s =
     (case s of (results, err, d) \<Rightarrow>
        do { d \<leftarrow> fpga_reg_write REG_WEIGHT_BASE tile_weight_base d;
             d \<leftarrow> fpga_reg_write REG_DIM_M (word_of_int tile_m) d;
             d \<leftarrow> fpga_reg_write REG_CTRL 0x1 d;
             (rc, d) \<leftarrow> fpga_wait_done hw 1000000 d;
             if rc < 0
             then Some (zero_fill results (nat rows_done) (nat tile_m), err @ [rows_done], d)
             else do { (results, d) \<leftarrow> ofold (read_result hw (nat rows_done)) [0..<nat tile_m]
                                          (results, d);
                       Some (results, err, d) } })"

text \<open>
  The loop: \<^verbatim>\<open>tile_m = M - rows_done; if (tile_m > FPGA_MAX_DIM_M) tile_m = FPGA_MAX_DIM_M;\<close>
  \<^verbatim>\<open>tile_weight_base = weight_base + (uint32_t)rows_done * stride;\<close> (a product of
  \<^verbatim>\<open>uint32_t\<close>, which wraps); both branches end with \<^verbatim>\<open>rows_done += tile_m\<close>.
\<close>

function tile_loop ::
  "accelerator \<Rightarrow> uint32_t \<Rightarrow> int \<Rightarrow> int \<Rightarrow> int \<Rightarrow> int32_t list \<times> int list \<times> fpga \<Rightarrow>
   (int32_t list \<times> int list \<times> fpga) option" where
  "tile_loop hw weight_base M stride rows_done s =
     (if rows_done < M then
        (case run_tile hw (weight_base + word_of_int rows_done * word_of_int stride)
                (if FPGA_MAX_DIM_M < M - rows_done then FPGA_MAX_DIM_M else M - rows_done)
                rows_done s of
           None \<Rightarrow> None
         | Some s' \<Rightarrow>
             tile_loop hw weight_base M stride
               (rows_done + (if FPGA_MAX_DIM_M < M - rows_done then FPGA_MAX_DIM_M
                             else M - rows_done)) s')
      else Some s)"
  by pat_completeness auto
termination
  by (relation "measure (\<lambda>(hw, weight_base, M, stride, rows_done, s). nat (M - rows_done))")
     (auto simp: FPGA_MAX_DIM_M_def)

declare tile_loop.simps [simp del]

text \<open>
  \<^verbatim>\<open>static void fpga_bitlinear(const int8_t *activations, int K, uint32_t weight_base,\<close>
  \<^verbatim>\<open>int M, int stride, int32_t *results)\<close>, with the register window passed in and returned.
  The function returns nothing: what it leaves behind is the \<^verbatim>\<open>results\<close> array, the lines
  on \<^verbatim>\<open>stderr\<close> and the state of the accelerator. It reads \<^verbatim>\<open>activations[0..K-1]\<close> and
  writes \<^verbatim>\<open>results[0..M-1]\<close>; the guard is the out-of-bounds access.
\<close>

definition fpga_bitlinear ::
  "accelerator \<Rightarrow> int8_t list \<Rightarrow> int \<Rightarrow> uint32_t \<Rightarrow> int \<Rightarrow> int \<Rightarrow> int32_t list \<Rightarrow> fpga \<Rightarrow>
   (int32_t list \<times> int list \<times> fpga) option" where
  "fpga_bitlinear hw activations K weight_base M stride results d =
     (if length activations < nat K \<or> length results < nat M then None
      else do { d \<leftarrow> ofold (write_activation activations) [0..<nat K] d;
                d \<leftarrow> fpga_reg_write REG_DIM_K (word_of_int K) d;
                d \<leftarrow> fpga_reg_write REG_SHIFT_AMT 0 d;
                tile_loop hw weight_base M stride 0 (results, [], d) })"

subsection \<open>Notions used to state the properties of the driver\<close>

text \<open>The register window once the activations, DIM_K and SHIFT_AMT are written.\<close>

definition configured :: "fpga \<Rightarrow> int8_t list \<Rightarrow> int \<Rightarrow> fpga" where
  "configured d activations K =
     d\<lparr>dim_k_reg := word_of_int K, shift_amt_reg := 0,
       act_buf := (\<lambda>i. if i < nat K then ucast (activations ! i) else act_buf d i)\<rparr>"

text \<open>The number of chunks of at most 1024 rows, and the launch of chunk \<open>c\<close>, which starts
  at row \<open>1024 * c\<close>.\<close>

definition n_chunks :: "int \<Rightarrow> nat" where
  "n_chunks M = nat ((M + 1023) div 1024)"

definition chunk_launch :: "fpga \<Rightarrow> uint32_t \<Rightarrow> int \<Rightarrow> int \<Rightarrow> nat \<Rightarrow> launch" where
  "chunk_launch d weight_base M stride c =
     \<lparr>l_weight_base = weight_base + word_of_int (1024 * int c) * word_of_int stride,
      l_dim_m = word_of_int (min (M - 1024 * int c) 1024),
      l_dim_k = dim_k_reg d, l_shift_amt = shift_amt_reg d, l_act = act_buf d\<rparr>"

text \<open>The wait of one second polls STATUS 100000 times; it times out when none of the
  polls shows the done bit.\<close>

definition timed_out :: "accelerator \<Rightarrow> nat \<Rightarrow> launch \<Rightarrow> bool" where
  "timed_out hw n l \<longleftrightarrow> (\<forall>p<100000. status_word hw n l p AND 0x2 = 0)"

text \<open>
  Modelled from the spec: an accelerator without a limit on DIM_M that computes each output
  row on its own (sections 4.2 and 4.3 of the specification): \<open>RESULT[i]\<close> is a function
  \<open>row\<close> of the activations, DIM_K, SHIFT_AMT and of the address of weight row \<open>i\<close>, which is
  \<open>WEIGHT_BASE + i * byte_stride\<close>, the byte stride being determined by DIM_K.
\<close>

definition rowwise ::
  "((nat \<Rightarrow> uint32_t) \<Rightarrow> uint32_t \<Rightarrow> uint32_t \<Rightarrow> uint32_t \<Rightarrow> uint32_t) \<Rightarrow> (uint32_t \<Rightarrow> uint32_t) \<Rightarrow>
   (nat \<Rightarrow> launch \<Rightarrow> nat \<Rightarrow> uint32_t) \<Rightarrow> accelerator" where
  "rowwise row byte_stride status =
     \<lparr>status_word = status,
      result_word = (\<lambda>n l i. row (l_act l) (l_dim_k l) (l_shift_amt l)
                               (l_weight_base l + word_of_nat i * byte_stride (l_dim_k l)))\<rparr>"

text \<open>
  With \<open>d\<close> the register window at the start of the tile loop: whether the wait of chunk \<open>c\<close>
  times out (chunk \<open>c\<close> is the launch number \<open>length (launches d) + c\<close>), and the value the
  loop leaves in \<^verbatim>\<open>results[r]\<close>, row \<open>r\<close> being entry \<open>r mod 1024\<close> of chunk \<open>r div 1024\<close>.
\<close>

definition chunk_timed_out :: "accelerator \<Rightarrow> fpga \<Rightarrow> uint32_t \<Rightarrow> int \<Rightarrow> int \<Rightarrow> nat \<Rightarrow> bool" where
  "chunk_timed_out hw d weight_base M stride c =
     timed_out hw (length (launches d) + c) (chunk_launch d weight_base M stride c)"

definition chunk_value :: "accelerator \<Rightarrow> fpga \<Rightarrow> uint32_t \<Rightarrow> int \<Rightarrow> int \<Rightarrow> nat \<Rightarrow> int32_t" where
  "chunk_value hw d weight_base M stride r =
     (if chunk_timed_out hw d weight_base M stride (r div 1024) then 0
      else result_word hw (length (launches d) + r div 1024)
             (chunk_launch d weight_base M stride (r div 1024)) (r mod 1024))"

text \<open>The state of the tile loop after \<open>j\<close> chunks, started from results \<open>res0\<close> and register
  window \<open>d0\<close>.\<close>

definition tile_inv ::
  "accelerator \<Rightarrow> fpga \<Rightarrow> uint32_t \<Rightarrow> int \<Rightarrow> int \<Rightarrow> int32_t list \<Rightarrow> nat \<Rightarrow>
   int32_t list \<times> int list \<times> fpga \<Rightarrow> bool" where
  "tile_inv hw d0 weight_base M stride res0 j s =
     (case s of (results, err, d) \<Rightarrow>
        length results = length res0 \<and>
        (\<forall>r<length res0. results ! r =
            (if r < 1024 * j \<and> r < nat M then chunk_value hw d0 weight_base M stride r
             else res0 ! r)) \<and>
        err = map (\<lambda>c. 1024 * int c) (filter (chunk_timed_out hw d0 weight_base M stride) [0..<j]) \<and>
        launches d = launches d0 @ map (chunk_launch d0 weight_base M stride) [0..<j] \<and>
        dim_k_reg d = dim_k_reg d0 \<and> shift_amt_reg d = shift_amt_reg d0 \<and>
        act_buf d = act_buf d0)"

subsection \<open>Sample accelerators\<close>

text \<open>A register window on which nothing has happened yet.\<close>

definition fresh_fpga :: fpga where
  "fresh_fpga = \<lparr>weight_base_reg = 0, dim_m_reg = 0, dim_k_reg = 0, shift_amt_reg = 0,
                  act_buf = (\<lambda>i. 0), launches = [], polls = 0\<rparr>"

text \<open>An accelerator that never signals done, and one that is done at the first poll and
  whose accumulators are all zero.\<close>

definition hw_silent :: accelerator where
  "hw_silent = \<lparr>status_word = (\<lambda>n l p. 0), result_word = (\<lambda>n l i. 5)\<rparr>"

definition hw_zero :: accelerator where
  "hw_zero = \<lparr>status_word = (\<lambda>n l p. 0x2), result_word = (\<lambda>n l i. 0)\<rparr>"

text \<open>An accelerator whose first launch never completes, while the later ones are done at
  the first poll with every accumulator equal to 9.\<close>

definition hw_first_silent :: accelerator where
  "hw_first_silent =
     \<lparr>status_word = (\<lambda>n l p. if n = 0 then 0 else 0x2), result_word = (\<lambda>n l i. 9)\<rparr>"

text \<open>A row-wise accelerator that is done at once, steps 32 bytes per weight row and
  returns, as the accumulator of a row, the address of its weights.\<close>

definition hw_address :: accelerator where
  "hw_address = rowwise (\<lambda>act k s addr. addr) (\<lambda>k. 32) (\<lambda>n l p. 0x2)"

section \<open>Properties of the weight codec\<close>

lemma enc_weight_and3: "enc_weight w AND 3 = enc_weight w"
  by (simp add: enc_weight_def)

lemma enc_weight_neq3: "enc_weight w \<noteq> 3"
  by (simp add: enc_weight_def)

lemma and3_bits:
  fixes e :: uint32_t
  assumes "e AND 3 = e" and "bit e n"
  shows "n < 2"
proof -
  have "bit (e AND 3) n" using assms by simp
  then have "bit (3 :: uint32_t) n" by (simp add: bit_and_iff)
  then have "bit (mask 2 :: uint32_t) n" by (simp add: mask_eq_exp_minus_1)
  then show ?thesis by (simp add: bit_mask_iff)
qed

lemma three_mask: "(3 :: uint32_t) = mask 2"
  by (simp add: mask_eq_exp_minus_1)

text \<open>Or-ing a 2-bit code into slot \<open>k\<close> of a word changes slot \<open>k\<close> and no other slot.\<close>

lemma or_field:
  fixes w e :: uint32_t
  assumes "e AND 3 = e" and "k < 16" and "k' < 16"
  shows "drop_bit (k' * 2) (w OR push_bit (k * 2) e) AND 3 =
         (drop_bit (k' * 2) w AND 3) OR (if k = k' then e else 0)"
  unfolding three_mask
proof (rule bit_word_eqI)
  fix n assume n: "n < LENGTH(32)"
  have e: "bit e m \<Longrightarrow> m < 2" for m using and3_bits[OF assms(1)] by blast
  show "bit (drop_bit (k' * 2) (w OR push_bit (k * 2) e) AND mask 2) n =
        bit ((drop_bit (k' * 2) w AND mask 2) OR (if k = k' then e else 0)) n"
  proof (cases "k = k'")
    case True
    then show ?thesis using e[of n] assms(2,3) n
      by (auto simp: bit_and_iff bit_or_iff bit_drop_bit_eq bit_push_bit_iff bit_mask_iff)
  next
    case False
    have "\<not> bit e (k' * 2 + n - k * 2)" if "n < 2" "k * 2 \<le> k' * 2 + n"
    proof
      assume "bit e (k' * 2 + n - k * 2)"
      then have "k' * 2 + n - k * 2 < 2" by (rule e)
      with that False show False by arith
    qed
    then show ?thesis using False assms(2,3)
      by (auto simp: bit_and_iff bit_or_iff bit_drop_bit_eq bit_push_bit_iff bit_mask_iff)
  qed
qed

lemma length_pack_step [simp]: "length (pack_step ws i out) = length out"
  by (simp add: pack_step_def)

lemma length_pack_loop [simp]: "length (pack_loop ws n) = 4"
  by (induction n) (simp_all add: pack_loop_def)

lemma pack_loop_Suc: "pack_loop ws (Suc n) = pack_step ws n (pack_loop ws n)"
  by (simp add: pack_loop_def)

lemma field2_pack_step:
  assumes "length out = 4" "i < 64" "j < 64"
  shows "field2 (pack_step ws i out) j = field2 out j OR (if i = j then enc_weight (ws ! i) else 0)"
proof (cases "i div 16 = j div 16")
  case True
  have ij: "i = j \<longleftrightarrow> i mod 16 = j mod 16" using True
    by (metis div_mult_mod_eq)
  have "i div 16 < 4" using assms(2) by simp
  then have "pack_step ws i out ! (j div 16) =
      (out ! (j div 16)) OR push_bit ((i mod 16) * 2) (enc_weight (ws ! i))"
    using True assms(1) by (simp add: pack_step_def)
  then have "field2 (pack_step ws i out) j =
      drop_bit ((j mod 16) * 2) ((out ! (j div 16)) OR push_bit ((i mod 16) * 2) (enc_weight (ws ! i))) AND 3"
    by (simp only: field2_def)
  also have "\<dots> = (drop_bit ((j mod 16) * 2) (out ! (j div 16)) AND 3) OR
      (if i mod 16 = j mod 16 then enc_weight (ws ! i) else 0)"
    by (rule or_field [OF enc_weight_and3]) simp_all
  finally show ?thesis by (simp only: field2_def ij)
next
  case False
  then have "i \<noteq> j" by auto
  with False show ?thesis by (simp add: field2_def pack_step_def)
qed

lemma field2_pack_loop:
  "n \<le> 64 \<Longrightarrow> j < 64 \<Longrightarrow> field2 (pack_loop ws n) j = (if j < n then enc_weight (ws ! j) else 0)"
proof (induction n)
  case 0
  have "j div 16 < 4" using 0 by simp
  then show ?case by (simp add: pack_loop_def field2_def)
next
  case (Suc n)
  then show ?case
    by (auto simp: pack_loop_Suc field2_pack_step less_Suc_eq)
qed

text \<open>
  Claim C9. For every 64-element \<^verbatim>\<open>int8_t\<close> input, \<^verbatim>\<open>pack_weights\<close> returns (it is total);
  the 2-bit field of position \<open>i\<close> is \<open>01\<close> where the weight is \<open>+1\<close>, \<open>10\<close> where it is
  \<open>-1\<close> and \<open>00\<close> for every other value of the byte, in range or not; the reserved code
  \<open>11\<close> appears in no field.
\<close>

theorem pack_weights_total_encoding:
  assumes "length weights = 64"
  shows "\<exists>out. pack_weights weights = Some out \<and> length out = 4 \<and>
           (\<forall>i<64. field2 out i =
                      (if sint (weights ! i) = 1 then 1
                       else if sint (weights ! i) = - 1 then 2 else 0) \<and>
                    field2 out i \<noteq> 3)"
  using assms by (simp add: pack_weights_def field2_pack_loop enc_weight_def)

theorem pack_weights_total_encoding_witness:
  "length ([1, - 1, 0, 2, - 3] @ replicate 59 (1 :: int8_t)) = 64 \<and>
   (\<exists>out. pack_weights ([1, - 1, 0, 2, - 3] @ replicate 59 1) = Some out \<and>
      field2 out 0 = 1 \<and> field2 out 1 = 2 \<and> field2 out 2 = 0 \<and> field2 out 3 = 0 \<and>
      field2 out 4 = 0 \<and> field2 out 63 = 1)"
proof -
  let ?ws = "[1, - 1, 0, 2, - 3] @ replicate 59 (1 :: int8_t)"
  have len: "length ?ws = 64" by simp
  from pack_weights_total_encoding [OF len] obtain out where
    o: "pack_weights ?ws = Some out" and
    f: "\<And>i. i < 64 \<Longrightarrow> field2 out i =
           (if sint (?ws ! i) = 1 then 1 else if sint (?ws ! i) = - 1 then 2 else 0)"
    by blast
  have "field2 out 0 = 1" "field2 out 1 = 2" "field2 out 2 = 0" "field2 out 3 = 0"
       "field2 out 4 = 0" "field2 out 63 = 1"
    using f [of 0] f [of 1] f [of 2] f [of 3] f [of 4] f [of 63] by (simp_all add: nth_append)
  with o len show ?thesis by blast
qed

subsection \<open>The matrix layout\<close>

lemma ofold_total:
  assumes "\<And>x s. x \<in> set xs \<Longrightarrow> f x s = Some (g x s)"
  shows "ofold f xs s = Some (fold g xs s)"
  using assms by (induction xs arbitrary: s) simp_all

lemma tiles_per_row_pos:
  assumes "1 \<le> K"
  shows "tiles_per_row K = (K + 63) div 64"
  using assms by (simp add: tiles_per_row_def NUM_PES_def signed_divide_int_def sgn_if)

lemma tiles_per_row_ceiling:
  assumes "1 \<le> K"
  shows "(tiles_per_row K - 1) * 64 < K \<and> K \<le> tiles_per_row K * 64"
  using assms by (simp add: tiles_per_row_pos) arith

lemma tiles_per_row_nonpos: "K \<le> 0 \<Longrightarrow> nat (tiles_per_row K) = 0"
  by (simp add: tiles_per_row_def NUM_PES_def signed_divide_int_def sgn_if pos_imp_zdiv_nonneg_iff)

lemma length_tile_chunk [simp]: "length (tile_chunk wmat K row tile) = 64"
  by (simp add: tile_chunk_def)

lemma nth_tile_chunk:
  "i < 64 \<Longrightarrow> tile_chunk wmat K row tile ! i =
     (if int (tile * 64 + i) < K then wmat ! (row * nat K + (tile * 64 + i)) else 0)"
  by (simp add: tile_chunk_def NUM_PES_def Let_def)

lemma fold_upd4:
  "fold (\<lambda>i m. m(wo + i := ps ! i)) [0..<4] m =
     (\<lambda>a. if wo \<le> a \<and> a < wo + 4 then ps ! (a - wo) else m a)"
proof -
  have "[0..<4] = [0, 1, 2, 3]" by (simp add: upt_rec)
  then show ?thesis by (auto simp: fun_eq_iff)
qed

lemma write_tile_eq:
  assumes "tile < nat (tiles_per_row K)"
  shows "write_tile wmat K row tile m =
     Some (\<lambda>a. if a div 4 = row * nat (tiles_per_row K) + tile then expected_word wmat K a else m a)"
proof -
  let ?T = "nat (tiles_per_row K)"
  let ?wo = "(row * ?T + tile) * 4"
  have run: "write_tile wmat K row tile m =
      Some (\<lambda>a. if ?wo \<le> a \<and> a < ?wo + 4
                 then pack_loop (tile_chunk wmat K row tile) 64 ! (a - ?wo) else m a)"
    by (simp only: write_tile_def pack_weights_def length_tile_chunk Let_def fold_upd4)
       simp
  have "(if ?wo \<le> a \<and> a < ?wo + 4
          then pack_loop (tile_chunk wmat K row tile) 64 ! (a - ?wo) else m a) =
        (if a div 4 = row * ?T + tile then expected_word wmat K a else m a)" for a
  proof (cases "a div 4 = row * ?T + tile")
    case True
    then have "?wo \<le> a \<and> a < ?wo + 4" "a - ?wo = a mod 4" by arith+
    moreover have "(a div 4) div ?T = row" "(a div 4) mod ?T = tile"
      using True assms by simp_all
    ultimately show ?thesis using True by (simp add: expected_word_def)
  next
    case False
    then have "\<not> (?wo \<le> a \<and> a < ?wo + 4)" by arith
    with False show ?thesis by (simp only: if_False)
  qed
  with run show ?thesis by simp
qed

lemma tile_loop_eq:
  assumes "n \<le> nat (tiles_per_row K)"
  shows "ofold (\<lambda>tile. write_tile wmat K row tile) [0..<n] m =
     Some (\<lambda>a. if row * nat (tiles_per_row K) \<le> a div 4 \<and> a div 4 < row * nat (tiles_per_row K) + n
               then expected_word wmat K a else m a)"
proof -
  let ?T = "nat (tiles_per_row K)"
  let ?g = "\<lambda>tile m a. if a div 4 = row * ?T + tile then expected_word wmat K a else m a"
  have "ofold (\<lambda>tile. write_tile wmat K row tile) [0..<n] m = Some (fold ?g [0..<n] m)"
    by (rule ofold_total) (use assms in \<open>simp add: write_tile_eq\<close>)
  moreover have "fold ?g [0..<n] m =
     (\<lambda>a. if row * ?T \<le> a div 4 \<and> a div 4 < row * ?T + n then expected_word wmat K a else m a)"
    by (induction n) (auto simp: fun_eq_iff)
  ultimately show ?thesis by simp
qed

lemma row_loop_eq:
  "ofold (\<lambda>row. ofold (\<lambda>tile. write_tile wmat K row tile) [0..<nat (tiles_per_row K)]) [0..<r] m =
     Some (\<lambda>a. if a div 4 < r * nat (tiles_per_row K) then expected_word wmat K a else m a)"
proof -
  let ?T = "nat (tiles_per_row K)"
  let ?g = "\<lambda>row m a. if row * ?T \<le> a div 4 \<and> a div 4 < row * ?T + ?T
               then expected_word wmat K a else m a"
  have "ofold (\<lambda>row. ofold (\<lambda>tile. write_tile wmat K row tile) [0..<?T]) [0..<r] m
          = Some (fold ?g [0..<r] m)"
    by (rule ofold_total) (simp add: tile_loop_eq)
  moreover have "fold ?g [0..<r] m =
     (\<lambda>a. if a div 4 < r * ?T then expected_word wmat K a else m a)"
    by (induction r) (auto simp: fun_eq_iff)
  ultimately show ?thesis by simp
qed

lemma write_weight_matrix_eq:
  assumes "0 \<le> M" "0 \<le> K" "length wmat = nat (M * K)"
    and "nat (M * tiles_per_row K * 16) \<le> DDR3_SPAN"
  shows "write_weight_matrix wmat M K m =
     Some (\<lambda>a. if a div 4 < nat M * nat (tiles_per_row K) then expected_word wmat K a else m a)"
  using assms by (simp add: write_weight_matrix_def row_loop_eq)


lemma div4_offset: "i < 4 \<Longrightarrow> (n * 4 + i) div 4 = (n :: nat)"
  by simp

lemma mod4_offset: "i < 4 \<Longrightarrow> (n * 4 + i) mod 4 = (i :: nat)"
  by simp

lemma tile_words_written:
  assumes m': "m' = (\<lambda>a. if a div 4 < nat M * nat (tiles_per_row K) then expected_word wmat K a else m a)"
    and "row < nat M" "tile < nat (tiles_per_row K)"
  shows "tile_words m' (row * nat (tiles_per_row K) * 16 + tile * 16) =
           pack_loop (tile_chunk wmat K row tile) 64"
proof -
  let ?T = "nat (tiles_per_row K)"
  let ?ps = "pack_loop (tile_chunk wmat K row tile) 64"
  have off: "(row * ?T * 16 + tile * 16) div 4 = (row * ?T + tile) * 4" by simp
  have lt: "row * ?T + tile < nat M * ?T"
  proof -
    have "row * ?T + tile < row * ?T + ?T" using assms(3) by simp
    also have "\<dots> = Suc row * ?T" by simp
    also have "\<dots> \<le> nat M * ?T" using assms(2) by (intro mult_le_mono1) simp
    finally show ?thesis .
  qed
  have w: "m' ((row * ?T + tile) * 4 + i) = ?ps ! i" if "i < 4" for i
  proof -
    have d: "((row * ?T + tile) * 4 + i) div 4 = row * ?T + tile"
      and r: "((row * ?T + tile) * 4 + i) mod 4 = i" using that by (rule div4_offset mod4_offset)+
    have "(row * ?T + tile) div ?T = row" "(row * ?T + tile) mod ?T = tile"
      using assms(3) by simp_all
    then show ?thesis using lt unfolding m' expected_word_def d r by simp
  qed
  have "tile_words m' (row * ?T * 16 + tile * 16) = map (\<lambda>i. ?ps ! i) [0..<4]"
    unfolding tile_words_def off
  proof (rule map_cong [OF refl])
    fix i assume "i \<in> set [0..<4]"
    then have "i < 4" by simp
    then show "m' ((row * ?T + tile) * 4 + i) = ?ps ! i" by (rule w)
  qed
  also have "\<dots> = ?ps" using map_nth [of ?ps] by simp
  finally show ?thesis .
qed

lemma stored_code_written:
  assumes m': "m' = (\<lambda>a. if a div 4 < nat M * nat (tiles_per_row K) then expected_word wmat K a else m a)"
    and "row < nat M" "col < nat (tiles_per_row K) * 64"
  shows "stored_code m' K row col =
           (if int col < K then enc_weight (wmat ! (row * nat K + col)) else 0)"
proof -
  have t: "col div 64 < nat (tiles_per_row K)" using assms(3) by (simp add: less_mult_imp_div_less)
  have c: "col div 64 * 64 + col mod 64 = col" by simp
  have "stored_code m' K row col = field2 (pack_loop (tile_chunk wmat K row (col div 64)) 64) (col mod 64)"
    unfolding stored_code_def tile_byte_offset_def
    by (simp only: tile_words_written [OF m' assms(2) t])
  also have "\<dots> = enc_weight (tile_chunk wmat K row (col div 64) ! (col mod 64))"
    by (simp add: field2_pack_loop)
  also have "\<dots> = (if int col < K then enc_weight (wmat ! (row * nat K + col)) else 0)"
  proof -
    have "tile_chunk wmat K row (col div 64) ! (col mod 64) =
        (if int (col div 64 * 64 + col mod 64) < K
         then wmat ! (row * nat K + (col div 64 * 64 + col mod 64)) else 0)"
      by (rule nth_tile_chunk) simp
    then have "tile_chunk wmat K row (col div 64) ! (col mod 64) =
        (if int col < K then wmat ! (row * nat K + col) else 0)"
      unfolding c .
    then show ?thesis by (simp add: enc_weight_def)
  qed
  finally show ?thesis .
qed

lemma decode2_enc_weight: "ternary w \<Longrightarrow> decode2 (enc_weight w) = Some w"
proof -
  assume "ternary w"
  then consider "sint w = sint (1 :: int8_t)" | "sint w = sint (- 1 :: int8_t)" | "sint w = sint (0 :: int8_t)"
    by (auto simp: ternary_def)
  then consider "w = 1" | "w = - 1" | "w = 0"
    by cases (blast dest: signed_word_eqI)+
  then show ?thesis by cases (simp_all add: decode2_def enc_weight_def)
qed


text \<open>
  Claim C3. For every \<open>M \<times> K\<close> matrix with entries in \<open>{-1, 0, +1}\<close> (that fits the mapped
  window), after \<^verbatim>\<open>write_weight_matrix\<close> has packed it with \<^verbatim>\<open>pack_weights\<close>, decoding the
  2-bit field stored for position \<open>(row, col)\<close> by the table \<open>00 = 0\<close>, \<open>01 = +1\<close>,
  \<open>10 = -1\<close> gives back the matrix entry; no field of a written tile holds the reserved
  code \<open>11\<close>, and the fields of the padding columns beyond \<open>K\<close> hold \<open>00\<close>.
\<close>

theorem weight_codec_roundtrip:
  assumes "0 \<le> M" and "0 \<le> K" and "length wmat = nat (M * K)"
    and "nat (M * tiles_per_row K * 16) \<le> DDR3_SPAN"
    and "\<forall>w\<in>set wmat. ternary w"
  shows "\<exists>ddr3'. write_weight_matrix wmat M K ddr3 = Some ddr3' \<and>
           (\<forall>row<nat M.
              (\<forall>col<nat K. decode2 (stored_code ddr3' K row col) = Some (wmat ! (row * nat K + col))) \<and>
              (\<forall>col<nat (tiles_per_row K) * 64.
                  stored_code ddr3' K row col \<noteq> 3 \<and>
                  (nat K \<le> col \<longrightarrow> stored_code ddr3' K row col = 0)))"
proof -
  let ?T = "nat (tiles_per_row K)"
  define m' where "m' = (\<lambda>a. if a div 4 < nat M * ?T then expected_word wmat K a else ddr3 a)"
  have run: "write_weight_matrix wmat M K ddr3 = Some m'"
    unfolding m'_def using assms(1-4) by (rule write_weight_matrix_eq)
  have code: "stored_code m' K row col =
      (if int col < K then enc_weight (wmat ! (row * nat K + col)) else 0)"
    if "row < nat M" "col < ?T * 64" for row col
    using m'_def that by (rule stored_code_written)
  have inner: "decode2 (stored_code m' K row col) = Some (wmat ! (row * nat K + col))"
    if "row < nat M" "col < nat K" for row col
  proof -
    have "1 \<le> K" using that(2) by simp
    then have "K \<le> tiles_per_row K * 64" using tiles_per_row_ceiling by blast
    then have c: "col < ?T * 64" using that(2) by simp
    have "row * nat K + col < row * nat K + nat K" using that(2) by simp
    also have "\<dots> = Suc row * nat K" by simp
    also have "\<dots> \<le> nat M * nat K" using that(1) by (intro mult_le_mono1) simp
    also have "\<dots> = length wmat" using assms(1-3) by (simp add: nat_mult_distrib)
    finally have "wmat ! (row * nat K + col) \<in> set wmat" by simp
    then have "ternary (wmat ! (row * nat K + col))" using assms(5) by blast
    moreover have "int col < K" using that(2) by simp
    ultimately show ?thesis using that c by (simp add: code decode2_enc_weight)
  qed
  have outer: "stored_code m' K row col \<noteq> 3 \<and> (nat K \<le> col \<longrightarrow> stored_code m' K row col = 0)"
    if "row < nat M" "col < ?T * 64" for row col
  proof (cases "int col < K")
    case True
    then have "\<not> nat K \<le> col" by arith
    with True that show ?thesis by (simp add: code enc_weight_neq3)
  next
    case False
    with that show ?thesis by (simp add: code)
  qed
  show ?thesis using run inner outer by blast
qed

text \<open>
  Claim C4. For every \<open>M \<ge> 1\<close> and \<open>K \<ge> 1\<close> (with the matrix fitting the mapped window),
  the packed tile of \<open>(row, tile)\<close> lies at byte offset
  \<open>row * tiles_per_row * 16 + tile * 16\<close>, where \<open>tiles_per_row\<close> is \<open>K / 64\<close> rounded up;
  the fields of columns at or beyond \<open>K\<close> hold the code of weight 0. Hence every row
  occupies the \<open>tiles_per_row * 16\<close> bytes from \<open>row * tiles_per_row * 16\<close> on: a size that
  depends on \<open>K\<close> only, not on \<open>M\<close> or the row, also when the last tile is partial.
\<close>

theorem weight_layout_row_stride:
  assumes "1 \<le> M" and "1 \<le> K" and "length wmat = nat (M * K)"
    and "nat (M * tiles_per_row K * 16) \<le> DDR3_SPAN"
  shows "\<exists>ddr3'. write_weight_matrix wmat M K ddr3 = Some ddr3' \<and>
           (tiles_per_row K - 1) * 64 < K \<and> K \<le> tiles_per_row K * 64 \<and>
           (\<forall>row<nat M. \<forall>tile<nat (tiles_per_row K).
              pack_weights (tile_chunk wmat K row tile) =
                Some (tile_words ddr3' (row * nat (tiles_per_row K) * 16 + tile * 16)) \<and>
              (\<forall>i<64. field2 (tile_words ddr3' (row * nat (tiles_per_row K) * 16 + tile * 16)) i =
                  (if int (tile * 64 + i) < K
                   then enc_weight (wmat ! (row * nat K + (tile * 64 + i))) else 0)) \<and>
              row * (nat (tiles_per_row K) * 16) \<le> row * nat (tiles_per_row K) * 16 + tile * 16 \<and>
              row * nat (tiles_per_row K) * 16 + tile * 16 + 16 \<le>
                (row + 1) * (nat (tiles_per_row K) * 16))"
proof -
  let ?T = "nat (tiles_per_row K)"
  define m' where "m' = (\<lambda>a. if a div 4 < nat M * ?T then expected_word wmat K a else ddr3 a)"
  have run: "write_weight_matrix wmat M K ddr3 = Some m'"
    unfolding m'_def using assms by (intro write_weight_matrix_eq) simp_all
  have tw: "tile_words m' (row * ?T * 16 + tile * 16) = pack_loop (tile_chunk wmat K row tile) 64"
    if "row < nat M" "tile < ?T" for row tile
    using m'_def that by (rule tile_words_written)
  have a: "pack_weights (tile_chunk wmat K row tile) = Some (tile_words m' (row * ?T * 16 + tile * 16))"
    if "row < nat M" "tile < ?T" for row tile
    using that by (simp add: tw pack_weights_def)
  have b: "field2 (tile_words m' (row * ?T * 16 + tile * 16)) i =
      (if int (tile * 64 + i) < K then enc_weight (wmat ! (row * nat K + (tile * 64 + i))) else 0)"
    if "row < nat M" "tile < ?T" "i < 64" for row tile i
    using that by (simp add: tw field2_pack_loop nth_tile_chunk enc_weight_def)
  have c: "row * (?T * 16) \<le> row * ?T * 16 + tile * 16 \<and>
           row * ?T * 16 + tile * 16 + 16 \<le> (row + 1) * (?T * 16)"
    if "tile < ?T" for row tile
    using that by (simp add: algebra_simps)
  show ?thesis using run tiles_per_row_ceiling [OF assms(2)] a b c by blast
qed


lemma tiles_per_row_65: "tiles_per_row 65 = 2"
  by (simp add: tiles_per_row_def NUM_PES_def signed_divide_int_def)

theorem weight_codec_roundtrip_witness:
  "(0::int) \<le> 2 \<and> (0::int) \<le> 65 \<and>
   length (replicate 65 1 @ replicate 65 (- 1 :: int8_t)) = nat (2 * 65) \<and>
   nat (2 * tiles_per_row 65 * 16) \<le> DDR3_SPAN \<and> ternary 1 \<and> ternary (- 1) \<and>
   (\<exists>ddr3'. write_weight_matrix (replicate 65 1 @ replicate 65 (- 1)) 2 65 (\<lambda>_. 0) = Some ddr3' \<and>
      decode2 (stored_code ddr3' 65 0 64) = Some 1 \<and>
      decode2 (stored_code ddr3' 65 1 64) = Some (- 1) \<and>
      stored_code ddr3' 65 1 65 = 0 \<and> stored_code ddr3' 65 1 127 \<noteq> 3)"
proof -
  let ?W = "replicate 65 1 @ replicate 65 (- 1 :: int8_t)"
  have h: "(0::int) \<le> 2" "(0::int) \<le> 65" "length ?W = nat (2 * 65)"
    "nat (2 * tiles_per_row 65 * 16) \<le> DDR3_SPAN" "\<forall>w\<in>set ?W. ternary w"
    by (simp_all add: tiles_per_row_65 DDR3_SPAN_def ternary_def)
  from weight_codec_roundtrip [OF h, of "\<lambda>_. 0"] obtain ddr3' where
    run: "write_weight_matrix ?W 2 65 (\<lambda>_. 0) = Some ddr3'"
    and dec: "\<And>row col. row < 2 \<Longrightarrow> col < 65 \<Longrightarrow>
                decode2 (stored_code ddr3' 65 row col) = Some (?W ! (row * 65 + col))"
    and pad: "\<And>row col. row < 2 \<Longrightarrow> col < 128 \<Longrightarrow>
                stored_code ddr3' 65 row col \<noteq> 3 \<and> (65 \<le> col \<longrightarrow> stored_code ddr3' 65 row col = 0)"
    by (auto simp: tiles_per_row_65)
  have "decode2 (stored_code ddr3' 65 0 64) = Some 1"
    "decode2 (stored_code ddr3' 65 1 64) = Some (- 1)"
    using dec [of 0 64] dec [of 1 64] by (simp_all add: nth_append)
  moreover have "stored_code ddr3' 65 1 65 = 0" "stored_code ddr3' 65 1 127 \<noteq> 3"
    using pad [of 1 65] pad [of 1 127] by simp_all
  ultimately show ?thesis using run h(1-4) by (simp add: ternary_def)
qed

theorem weight_layout_row_stride_witness:
  "(1::int) \<le> 2 \<and> (1::int) \<le> 65 \<and>
   length (replicate 65 1 @ replicate 65 (- 1 :: int8_t)) = nat (2 * 65) \<and>
   nat (2 * tiles_per_row 65 * 16) \<le> DDR3_SPAN \<and> tiles_per_row 65 = 2 \<and>
   (\<exists>ddr3'. write_weight_matrix (replicate 65 1 @ replicate 65 (- 1)) 2 65 (\<lambda>_. 0) = Some ddr3' \<and>
      pack_weights (tile_chunk (replicate 65 1 @ replicate 65 (- 1)) 65 1 1) =
        Some (tile_words ddr3' (1 * 2 * 16 + 1 * 16)) \<and>
      field2 (tile_words ddr3' (1 * 2 * 16 + 1 * 16)) 0 = 2 \<and>
      field2 (tile_words ddr3' (1 * 2 * 16 + 1 * 16)) 1 = 0)"
proof -
  let ?W = "replicate 65 1 @ replicate 65 (- 1 :: int8_t)"
  have h: "(1::int) \<le> 2" "(1::int) \<le> 65" "length ?W = nat (2 * 65)"
    "nat (2 * tiles_per_row 65 * 16) \<le> DDR3_SPAN"
    by (simp_all add: tiles_per_row_65 DDR3_SPAN_def)
  from weight_layout_row_stride [OF h, of "\<lambda>_. 0"] obtain ddr3' where
    run: "write_weight_matrix ?W 2 65 (\<lambda>_. 0) = Some ddr3'"
    and tile: "\<And>row tile. row < 2 \<Longrightarrow> tile < 2 \<Longrightarrow>
        pack_weights (tile_chunk ?W 65 row tile) = Some (tile_words ddr3' (row * 2 * 16 + tile * 16)) \<and>
        (\<forall>i<64. field2 (tile_words ddr3' (row * 2 * 16 + tile * 16)) i =
            (if int (tile * 64 + i) < 65 then enc_weight (?W ! (row * 65 + (tile * 64 + i))) else 0))"
    by (auto simp: tiles_per_row_65)
  from tile [of 1 1] have
    p: "pack_weights (tile_chunk ?W 65 1 1) = Some (tile_words ddr3' (1 * 2 * 16 + 1 * 16))"
    and f: "\<And>i. i < 64 \<Longrightarrow> field2 (tile_words ddr3' (1 * 2 * 16 + 1 * 16)) i =
            (if int (1 * 64 + i) < 65 then enc_weight (?W ! (1 * 65 + (1 * 64 + i))) else 0)"
    by simp_all
  have "field2 (tile_words ddr3' (1 * 2 * 16 + 1 * 16)) 0 = 2"
    "field2 (tile_words ddr3' (1 * 2 * 16 + 1 * 16)) 1 = 0"
    using f [of 0] f [of 1] by (simp_all add: nth_append enc_weight_def)
  with run p h show ?thesis by (simp add: tiles_per_row_65)
qed

section \<open>Properties of the reference model\<close>

lemma dot_Suc: "dot ws as (Suc n) = dot ws as n + sint (ws ! n) * sint (as ! n)"
  by (simp add: dot_def)

lemma fold_mac_step:
  "fold (mac_step ws as) [0..<n] acc = acc + word_of_int (dot ws as n)"
proof (induction n)
  case 0
  show ?case by (simp add: dot_def)
next
  case (Suc n)
  have "fold (mac_step ws as) [0..<Suc n] acc = mac_step ws as n (fold (mac_step ws as) [0..<n] acc)"
    by simp
  also have "\<dots> = acc + word_of_int (dot ws as n) + scast (ws ! n) * scast (as ! n)"
    by (simp only: Suc.IH mac_step_def)
  also have "\<dots> = acc + word_of_int (dot ws as (Suc n))"
    by (simp only: dot_Suc scast_eq of_int_add of_int_mult add.assoc)
  finally show ?case .
qed

lemma sint_clamp_int8: "sint (clamp_int8 acc) = clamp (sint acc) (- 128) 127"
  by (simp add: clamp_int8_def clamp_def word_sless_alt Let_def)

lemma sint_ucast_small:
  fixes acc :: int32_t
  assumes "- 128 \<le> sint acc" "sint acc \<le> 127"
  shows "sint (ucast acc :: int8_t) = sint acc"
proof -
  have "(ucast acc :: int8_t) = scast acc"
    by (rule bit_word_eqI) (auto simp: bit_simps)
  moreover have "sint (scast acc :: int8_t) = signed_take_bit 7 (sint acc)"
    by (simp add: signed_scast_eq)
  moreover have "signed_take_bit 7 (sint acc) = sint acc"
    using assms by (simp add: signed_take_bit_int_eq_self)
  ultimately show ?thesis by simp
qed

lemma clamp_range: "lo \<le> hi \<Longrightarrow> lo \<le> clamp x lo hi \<and> clamp x lo hi \<le> hi"
  by (simp add: clamp_def)

lemma ternary_prod_bound:
  assumes "ternary w"
  shows "\<bar>sint w * sint (a :: int8_t)\<bar> \<le> 128"
proof -
  have "- 128 \<le> sint a" "sint a < 128"
    using sint_greater_eq [of a] sint_less [of a] by simp_all
  with assms show ?thesis by (auto simp: ternary_def)
qed

lemma dot_bound:
  assumes "\<forall>k<n. ternary (ws ! k)"
  shows "\<bar>dot ws as n\<bar> \<le> 128 * int n"
proof -
  have "\<bar>dot ws as n\<bar> \<le> (\<Sum>k<n. \<bar>sint (ws ! k) * sint (as ! k)\<bar>)"
    unfolding dot_def by (rule sum_abs)
  also have "\<dots> \<le> (\<Sum>k<n. 128)"
    by (rule sum_mono) (use assms ternary_prod_bound in auto)
  finally show ?thesis by simp
qed

lemma dot_ex: "dot [1, - 1, 0, 1] [100, - 128, 7, 127] 4 = 355"
  by (simp add: dot_def eval_nat_numeral lessThan_Suc)

text \<open>
  Claim C1. For every weight vector of length \<open>K\<close> with entries in \<open>{-1, 0, +1}\<close>, every
  \<^verbatim>\<open>int8_t\<close> activation vector of length \<open>K\<close> and every shift \<open>s\<close> in \<open>[0, 9]\<close>,
  \<^verbatim>\<open>compute_expected_row\<close> returns the dot product, taken in 32-bit signed arithmetic,
  shifted right arithmetically by \<open>s\<close> (the floor of the division by \<open>2 ^ s\<close>) and then
  clamped to \<open>[-128, 127]\<close>: the clamp is applied to the shifted value. For \<open>K < 2 ^ 24\<close>
  the 32-bit sum cannot wrap and is the exact sum.
\<close>

theorem compute_expected_row_spec:
  assumes "0 \<le> K" and "length weights = nat K" and "length acts = nat K"
    and "\<forall>w\<in>set weights. ternary w"
    and "0 \<le> s" and "s \<le> 9"
  shows "\<exists>r. compute_expected_row weights acts K s = Some r \<and>
           sint r = clamp (sint (word_of_int (dot weights acts (nat K)) :: int32_t) div 2 ^ nat s)
                      (- 128) 127 \<and>
           (K < 2 ^ 24 \<longrightarrow>
              sint r = clamp (dot weights acts (nat K) div 2 ^ nat s) (- 128) 127)"
proof -
  let ?acc = "word_of_int (dot weights acts (nat K)) :: int32_t"
  let ?sh = "signed_drop_bit (nat s) ?acc"
  have run: "compute_expected_row weights acts K s = Some (ucast (clamp_int8 ?sh))"
    using assms by (simp add: compute_expected_row_def fold_mac_step)
  have sh: "sint ?sh = sint ?acc div 2 ^ nat s"
    by (simp add: sint_signed_drop_bit_eq drop_bit_eq_div)
  have r: "sint (ucast (clamp_int8 ?sh) :: int8_t) = clamp (sint ?acc div 2 ^ nat s) (- 128) 127"
    using clamp_range [of "- 128" 127 "sint ?sh"]
    by (simp add: sint_ucast_small sint_clamp_int8 sh)
  have exact: "sint ?acc = dot weights acts (nat K)" if "K < 2 ^ 24"
  proof -
    have "\<forall>k<nat K. ternary (weights ! k)" using assms(2,4) by simp
    then have "\<bar>dot weights acts (nat K)\<bar> \<le> 128 * int (nat K)" by (rule dot_bound)
    with that assms(1) have "- (2 ^ 31) \<le> dot weights acts (nat K)" "dot weights acts (nat K) < 2 ^ 31"
      by simp_all
    then show ?thesis by (simp add: signed_of_int signed_take_bit_int_eq_self)
  qed
  show ?thesis using run r exact by simp
qed

theorem compute_expected_row_spec_witness:
  "(0::int) \<le> 4 \<and> length [1, - 1, 0, 1 :: int8_t] = nat 4 \<and> length [100, - 128, 7, 127 :: int8_t] = nat 4 \<and>
   ternary 1 \<and> ternary (- 1) \<and> ternary 0 \<and> (0::int) \<le> 1 \<and> (1::int) \<le> 9 \<and> (4::int) < 2 ^ 24 \<and>
   (\<exists>r. compute_expected_row [1, - 1, 0, 1] [100, - 128, 7, 127] 4 1 = Some r \<and> sint r = 127)"
  using compute_expected_row_spec [of 4 "[1, - 1, 0, 1]" "[100, - 128, 7, 127]" 1]
  by (simp add: ternary_def dot_ex clamp_def)

section \<open>Properties of the arg-max\<close>

lemma argmax_fold_Suc:
  "1 \<le> m \<Longrightarrow> fold (argmax_step buf) [1..<Suc m] 0 =
     argmax_step buf m (fold (argmax_step buf) [1..<m] 0)"
  by simp

lemma argmax_fold_inv:
  assumes "1 \<le> m"
  shows "fold (argmax_step buf) [1..<m] 0 < m \<and>
         (\<forall>j<m. sint (buf ! j) \<le> sint (buf ! fold (argmax_step buf) [1..<m] 0)) \<and>
         (\<forall>j<fold (argmax_step buf) [1..<m] 0.
             sint (buf ! j) < sint (buf ! fold (argmax_step buf) [1..<m] 0))"
  using assms
proof (induction m rule: nat_induct_at_least)
  case base
  show ?case by simp
next
  case (Suc m)
  let ?b = "fold (argmax_step buf) [1..<m] 0"
  have step: "fold (argmax_step buf) [1..<Suc m] 0 = argmax_step buf m ?b"
    using Suc.hyps by (rule argmax_fold_Suc)
  show ?case
  proof (cases "sint (buf ! ?b) < sint (buf ! m)")
    case True
    then have "argmax_step buf m ?b = m" by (simp add: argmax_step_def)
    moreover have "\<forall>j<Suc m. sint (buf ! j) \<le> sint (buf ! m)"
      using Suc.IH True by (auto simp: less_Suc_eq intro: order.strict_implies_order dest: le_less_trans)
    moreover have "\<forall>j<m. sint (buf ! j) < sint (buf ! m)"
      using Suc.IH True by (auto dest: le_less_trans)
    ultimately show ?thesis unfolding step by simp
  next
    case False
    then have "argmax_step buf m ?b = ?b" by (simp add: argmax_step_def)
    moreover have "\<forall>j<Suc m. sint (buf ! j) \<le> sint (buf ! ?b)"
      using Suc.IH False by (auto simp: less_Suc_eq)
    ultimately show ?thesis unfolding step using Suc.IH by auto
  qed
qed

text \<open>
  Claim C8. For every \<open>n \<ge> 1\<close> and every \<^verbatim>\<open>int8_t\<close> vector of length \<open>n\<close>,
  \<^verbatim>\<open>argmax_int8\<close> returns an index in \<open>[0, n)\<close> whose value is the maximum of the vector,
  and every earlier index holds a strictly smaller value: ties go to the earliest index.
\<close>

theorem argmax_int8_first_maximum:
  assumes "1 \<le> n" and "length buf = nat n"
  shows "\<exists>b. argmax_int8 buf n = Some b \<and> 0 \<le> b \<and> b < n \<and>
           (\<forall>j<nat n. sint (buf ! j) \<le> sint (buf ! nat b)) \<and>
           (\<forall>j<nat b. sint (buf ! j) < sint (buf ! nat b))"
proof -
  have "1 \<le> nat n" using assms(1) by simp
  from argmax_fold_inv [OF this, of buf] assms show ?thesis
    by (auto simp: argmax_int8_def)
qed

theorem argmax_int8_first_maximum_witness:
  "(1::int) \<le> 5 \<and> length [3, 127, - 128, 127, 5 :: int8_t] = nat 5 \<and>
   argmax_int8 [3, 127, - 128, 127, 5] 5 = Some 1"
proof -
  let ?buf = "[3, 127, - 128, 127, 5 :: int8_t]"
  from argmax_int8_first_maximum [of 5 ?buf] obtain b where
    b: "argmax_int8 ?buf 5 = Some b" "0 \<le> b" "b < 5"
    and mx: "\<And>j. j < 5 \<Longrightarrow> sint (?buf ! j) \<le> sint (?buf ! nat b)"
    and fst: "\<And>j. j < nat b \<Longrightarrow> sint (?buf ! j) < sint (?buf ! nat b)"
    by auto
  from b(2,3) have "b = 0 \<or> b = 1 \<or> b = 2 \<or> b = 3 \<or> b = 4" by arith
  then have "b = 1"
    using mx [of 1] fst [of 1] by (elim disjE) simp_all
  with b show ?thesis by simp
qed


section \<open>Properties of the image preprocessing\<close>

lemma to_activation_value:
  "sint (to_activation p) = uint p * 127 div 255 \<and>
   0 \<le> sint (to_activation p) \<and> sint (to_activation p) \<le> 127"
proof -
  have u: "0 \<le> uint p" "uint p \<le> 255"
    using uint_lt2p [of p] by simp_all
  have q: "(uint p * 127) sdiv 255 = uint p * 127 div 255"
    using u by (simp add: signed_divide_int_def sgn_if)
  have lo: "0 \<le> uint p * 127 div 255" using u by (simp add: pos_imp_zdiv_nonneg_iff)
  have "uint p * 127 \<le> 255 * 127" using u by simp
  then have "uint p * 127 div 255 \<le> 255 * 127 div 255" by (rule zdiv_mono1) simp
  then have hi: "uint p * 127 div 255 \<le> 127" by simp
  have "sint (word_of_int (uint p * 127 div 255) :: int8_t) = uint p * 127 div 255"
    using lo hi by (simp add: signed_of_int signed_take_bit_int_eq_self)
  then show ?thesis using lo hi by (simp add: to_activation_def q)
qed

lemma length_resize_nearest [simp]:
  "length (resize_nearest src src_w src_h dst_w dst_h) = dst_h * dst_w"
  by (simp add: resize_nearest_def length_concat comp_def sum_list_triv)

lemma load_pgm_length:
  "load_pgm scan fs filename buf_size = Inr (raw_buf, width, height) \<Longrightarrow>
     length raw_buf = nat (width * height)"
  by (auto simp: load_pgm_def split: option.splits if_splits)

lemma load_img28_length:
  assumes "load_img28 scan fs filename = Inr (img28, orig_w, orig_h, resized)"
  shows "length img28 = MNIST_PIXELS"
  using assms
  by (auto simp: load_img28_def MNIST_PIXELS_def MNIST_DIM_def
           split: option.splits if_splits sum.splits dest!: load_pgm_length)

text \<open>
  Claim C10. For every file that \<^verbatim>\<open>preprocess_image\<close> accepts, PGM or raw, the image
  \<^verbatim>\<open>img28\<close> it has loaded has 784 pixels, each in \<open>[0, 255]\<close>, and each of the 784 output
  activations is \<open>pixel * 127 / 255\<close> of its pixel and so lies in \<open>[0, 127]\<close>: no activation
  is negative.
\<close>

theorem preprocess_image_range:
  assumes "preprocess_image scan fs filename = Inr (output, orig_w, orig_h, resized)"
  shows "\<exists>img28. load_img28 scan fs filename = Inr (img28, orig_w, orig_h, resized) \<and>
           length img28 = 784 \<and> length output = 784 \<and>
           (\<forall>i<784. sint (output ! i) = uint (img28 ! i) * 127 div 255 \<and>
                     0 \<le> uint (img28 ! i) \<and> uint (img28 ! i) \<le> 255 \<and>
                     0 \<le> sint (output ! i) \<and> sint (output ! i) \<le> 127)"
proof -
  from assms obtain img28 where
    l: "load_img28 scan fs filename = Inr (img28, orig_w, orig_h, resized)"
    and out: "output = map to_activation img28"
    by (auto simp: preprocess_image_def split: sum.splits)
  have len: "length img28 = 784"
    using load_img28_length [OF l] by (simp add: MNIST_PIXELS_def)
  have "sint (output ! i) = uint (img28 ! i) * 127 div 255 \<and>
        0 \<le> uint (img28 ! i) \<and> uint (img28 ! i) \<le> 255 \<and>
        0 \<le> sint (output ! i) \<and> sint (output ! i) \<le> 127" if "i < 784" for i
  proof -
    have "output ! i = to_activation (img28 ! i)" using that len out by simp
    moreover have "uint (img28 ! i) \<le> 255" using uint_lt2p [of "img28 ! i"] by simp
    ultimately show ?thesis using to_activation_value [of "img28 ! i"] by simp
  qed
  then have "\<forall>i<784. sint (output ! i) = uint (img28 ! i) * 127 div 255 \<and>
        0 \<le> uint (img28 ! i) \<and> uint (img28 ! i) \<le> 255 \<and>
        0 \<le> sint (output ! i) \<and> sint (output ! i) \<le> 127" by blast
  moreover have "length output = 784" using len out by simp
  ultimately show ?thesis using l len by blast
qed

lemma to_activation_200: "to_activation 200 = 99"
  by (simp add: to_activation_def signed_divide_int_def)

theorem preprocess_image_range_witness:
  "preprocess_image (\<lambda>_. None) (\<lambda>_. Some (replicate 784 200)) ''digit.raw'' =
     Inr (replicate 784 99, 28, 28, 0) \<and>
   load_img28 (\<lambda>_. None) (\<lambda>_. Some (replicate 784 200)) ''digit.raw'' =
     Inr (replicate 784 200, 28, 28, 0) \<and>
   sint (replicate 784 99 ! 5 :: int8_t) = uint (replicate 784 200 ! 5 :: uint8_t) * 127 div 255"
proof -
  have run: "preprocess_image (\<lambda>_. None) (\<lambda>_. Some (replicate 784 200)) ''digit.raw'' =
     Inr (replicate 784 99, 28, 28, 0)"
    by (simp add: preprocess_image_def load_img28_def MNIST_PIXELS_def to_activation_200)
  from preprocess_image_range [OF run] obtain img28 where
    l: "load_img28 (\<lambda>_. None) (\<lambda>_. Some (replicate 784 200)) ''digit.raw'' = Inr (img28, 28, 28, 0)"
    and v: "\<And>i. i < 784 \<Longrightarrow> sint (replicate 784 99 ! i :: int8_t) = uint (img28 ! i) * 127 div 255"
    by blast
  from l have "img28 = replicate 784 200"
    by (simp add: load_img28_def MNIST_PIXELS_def)
  with run l v [of 5] show ?thesis by simp
qed

section \<open>Properties of the exit codes\<close>

lemma mode_files_count:
  "fold (mode_files_step preprocess infer argv) is count =
     count + int (length (filter (image_processed preprocess infer argv) is))"
  by (induction "is" arbitrary: count)
     (auto simp: mode_files_step_def image_processed_def split: option.splits)

lemma mode_files_zero_iff:
  "mode_files preprocess infer argv start_idx = 0 \<longleftrightarrow>
     (\<exists>i. start_idx \<le> i \<and> i < length argv \<and> image_processed preprocess infer argv i)"
proof -
  let ?P = "image_processed preprocess infer argv"
  have "mode_files preprocess infer argv start_idx = 0 \<longleftrightarrow>
      filter ?P [start_idx..<length argv] \<noteq> []"
    by (simp add: mode_files_def mode_files_count Let_def)
  also have "\<dots> \<longleftrightarrow> (\<exists>i. start_idx \<le> i \<and> i < length argv \<and> ?P i)"
    by (auto simp: filter_empty_conv)
  finally show ?thesis .
qed

lemma mode_files_range:
  "mode_files preprocess infer argv start_idx = 0 \<or> mode_files preprocess infer argv start_idx = 1"
  by (simp add: mode_files_def Let_def)

lemma check_result_one_iff:
  "check_result expected run = 1 \<longleftrightarrow> (\<exists>r. run = Result r \<and> sint r = expected)"
  by (cases run) (simp_all add: check_result_def)

lemma check_result_range: "check_result expected run = 0 \<or> check_result expected run = 1"
  by (cases run) (simp_all add: check_result_def)

lemma test_bitnet_main_zero_iff:
  "test_bitnet_main open_ok lw_ok ddr3_ok r1 r2 r3 r4 r5 = 0 \<longleftrightarrow>
     open_ok \<and> lw_ok \<and> ddr3_ok \<and>
     check_result 64 r1 = 1 \<and> check_result 0 r2 = 1 \<and> check_result (- 64) r3 = 1 \<and>
     check_result 0 r4 = 1 \<and> check_result 127 r5 = 1"
  using check_result_range [of 64 r1] check_result_range [of 0 r2]
    check_result_range [of "- 64" r3] check_result_range [of 0 r4] check_result_range [of 127 r5]
  by (auto simp: test_bitnet_main_def test_identity_def test_zero_weights_def test_negate_def
        test_mixed_def test_clamp_def Let_def)

lemma run_checks_failed:
  "g_tests_failed (run_checks outcomes c) = g_tests_failed c + int (length (filter Not outcomes))"
  unfolding run_checks_def
  by (induction outcomes arbitrary: c) (simp_all add: TEST_PASS_def TEST_FAIL_def)

lemma registry_failed:
  "g_tests_failed (fold (\<lambda>(name, outcomes) c. if selected flt name then run_checks outcomes c else c) reg c) =
     g_tests_failed c +
     int (length (filter Not (concat (map snd (filter (\<lambda>t. selected flt (fst t)) reg)))))"
  by (induction reg arbitrary: c) (auto simp: run_checks_failed)

lemma comprehensive_main_zero_iff:
  "comprehensive_main mmap_ok flt reg = 0 \<longleftrightarrow>
     mmap_ok \<and> (\<forall>t\<in>set reg. selected flt (fst t) \<longrightarrow> (\<forall>ok\<in>set (snd t). ok))"
proof -
  let ?fails = "filter Not (concat (map snd (filter (\<lambda>t. selected flt (fst t)) reg)))"
  have "comprehensive_main mmap_ok flt reg = 0 \<longleftrightarrow> mmap_ok \<and> ?fails = []"
    by (simp add: comprehensive_main_def registry_failed Let_def)
  also have "?fails = [] \<longleftrightarrow>
      (\<forall>t\<in>set reg. selected flt (fst t) \<longrightarrow> (\<forall>ok\<in>set (snd t). ok))"
    unfolding filter_empty_conv by fastforce
  finally show ?thesis .
qed

text \<open>
  Claim C6, as stated, fails for \<^verbatim>\<open>mnist_inference\<close>: in the sample run one file cannot be
  opened and one inference times out, and the exit code is 0 because a third image is
  classified.
\<close>

theorem exit_code_counterexample:
  "sample_preprocess (sample_argv ! 1) = None \<and>
   sample_preprocess (sample_argv ! 2) = Some (replicate 784 0) \<and>
   sample_infer 2 (replicate 784 0) = - 1 \<and>
   mode_files sample_preprocess sample_infer sample_argv 1 = 0 \<and>
   mnist_main True 0 sample_dir sample_preprocess sample_infer sample_argv = 0"
  by (simp add: mnist_main_def mode_files_def mode_files_step_def sample_preprocess_def
        sample_infer_def sample_argv_def upt_rec Let_def)

text \<open>
  Claim C6, amended. \<^verbatim>\<open>mode_files\<close> returns 0 exactly when at least one image was
  preprocessed and classified without a timeout, and 1 otherwise; \<^verbatim>\<open>mnist_inference\<close>
  exits with 1 when the device memory cannot be mapped. \<^verbatim>\<open>test_bitnet\<close> exits with 0
  exactly when the device memory is mapped and each of its five tests reads its expected
  value (a timeout fails the test), and with 1 otherwise. \<^verbatim>\<open>test_bitnet_comprehensive\<close>
  exits with 0 exactly when the device memory is mapped and every check of every selected
  test passes, and with 1 otherwise.
\<close>

theorem exit_codes:
  "(mode_files preprocess infer argv start_idx = 0 \<longleftrightarrow>
      (\<exists>i. start_idx \<le> i \<and> i < length argv \<and> image_processed preprocess infer argv i)) \<and>
   (mode_files preprocess infer argv start_idx \<noteq> 0 \<longleftrightarrow>
      mode_files preprocess infer argv start_idx = 1) \<and>
   mnist_main False benchmark dir preprocess infer argv = 1 \<and>
   (test_bitnet_main open_ok lw_ok ddr3_ok r1 r2 r3 r4 r5 = 0 \<longleftrightarrow>
      open_ok \<and> lw_ok \<and> ddr3_ok \<and>
      (\<exists>v. r1 = Result v \<and> sint v = 64) \<and> (\<exists>v. r2 = Result v \<and> sint v = 0) \<and>
      (\<exists>v. r3 = Result v \<and> sint v = - 64) \<and> (\<exists>v. r4 = Result v \<and> sint v = 0) \<and>
      (\<exists>v. r5 = Result v \<and> sint v = 127)) \<and>
   (test_bitnet_main open_ok lw_ok ddr3_ok r1 r2 r3 r4 r5 \<noteq> 0 \<longleftrightarrow>
      test_bitnet_main open_ok lw_ok ddr3_ok r1 r2 r3 r4 r5 = 1) \<and>
   (comprehensive_main mmap_ok flt test_registry = 0 \<longleftrightarrow>
      mmap_ok \<and> (\<forall>t\<in>set test_registry. selected flt (fst t) \<longrightarrow> (\<forall>ok\<in>set (snd t). ok))) \<and>
   (comprehensive_main mmap_ok flt test_registry \<noteq> 0 \<longleftrightarrow>
      comprehensive_main mmap_ok flt test_registry = 1)"
proof -
  have a: "mode_files preprocess infer argv start_idx \<noteq> 0 \<longleftrightarrow>
      mode_files preprocess infer argv start_idx = 1"
    using mode_files_range [of preprocess infer argv start_idx] by auto
  have b: "mnist_main False benchmark dir preprocess infer argv = 1"
    by (simp add: mnist_main_def Let_def)
  have c: "test_bitnet_main open_ok lw_ok ddr3_ok r1 r2 r3 r4 r5 \<noteq> 0 \<longleftrightarrow>
      test_bitnet_main open_ok lw_ok ddr3_ok r1 r2 r3 r4 r5 = 1"
    by (simp add: test_bitnet_main_def Let_def)
  have d: "comprehensive_main mmap_ok flt test_registry \<noteq> 0 \<longleftrightarrow>
      comprehensive_main mmap_ok flt test_registry = 1"
    by (simp add: comprehensive_main_def Let_def)
  show ?thesis
    using a b c d
    by (simp only: mode_files_zero_iff test_bitnet_main_zero_iff check_result_one_iff
          comprehensive_main_zero_iff simp_thms)
qed


theorem exit_codes_witness:
  "image_processed sample_preprocess sample_infer sample_argv 3 \<and>
   mode_files sample_preprocess sample_infer sample_argv 1 = 0 \<and>
   test_bitnet_main True True True (Result 64) (Result 0) Timeout (Result 0) (Result 127) = 1 \<and>
   comprehensive_main True (Some ''A'') [(''A1'', [True, True]), (''B1'', [False])] = 0 \<and>
   comprehensive_main True None [(''A1'', [True, True]), (''B1'', [False])] = 1"
proof -
  note E1 = exit_codes [where preprocess = sample_preprocess and infer = sample_infer
      and argv = sample_argv and start_idx = 1 and benchmark = 0 and dir = sample_dir
      and open_ok = True and lw_ok = True and ddr3_ok = True
      and ?r1.0 = "Result 64" and ?r2.0 = "Result 0" and ?r3.0 = Timeout
      and ?r4.0 = "Result 0" and ?r5.0 = "Result 127"
      and mmap_ok = True and flt = "Some ''A''"
      and test_registry = "[(''A1'', [True, True]), (''B1'', [False])]"]
  note E2 = exit_codes [where preprocess = sample_preprocess and infer = sample_infer
      and argv = sample_argv and start_idx = 1 and benchmark = 0 and dir = sample_dir
      and open_ok = True and lw_ok = True and ddr3_ok = True
      and ?r1.0 = "Result 64" and ?r2.0 = "Result 0" and ?r3.0 = Timeout
      and ?r4.0 = "Result 0" and ?r5.0 = "Result 127"
      and mmap_ok = True and flt = None
      and test_registry = "[(''A1'', [True, True]), (''B1'', [False])]"]
  have p: "image_processed sample_preprocess sample_infer sample_argv 3"
    by (simp add: image_processed_def sample_preprocess_def sample_infer_def sample_argv_def)
  have "1 \<le> (3::nat) \<and> 3 < length sample_argv \<and>
      image_processed sample_preprocess sample_infer sample_argv 3"
    using p by (simp add: sample_argv_def)
  then have m: "mode_files sample_preprocess sample_infer sample_argv 1 = 0"
    using E1 by blast
  have t: "test_bitnet_main True True True (Result 64) (Result 0) Timeout (Result 0) (Result 127) = 1"
    using E1 by auto
  have c1: "comprehensive_main True (Some ''A'') [(''A1'', [True, True]), (''B1'', [False])] = 0"
    using E1 by (auto simp: selected_def)
  have c2: "comprehensive_main True None [(''A1'', [True, True]), (''B1'', [False])] = 1"
    using E2 by (auto simp: selected_def)
  from p m t c1 c2 show ?thesis by simp
qed

section \<open>Properties of the tiling driver\<close>

subsection \<open>Register accesses and the wait\<close>

lemma unat_word_of_nat_32: "n < 2 ^ 32 \<Longrightarrow> unat (word_of_nat n :: uint32_t) = n"
  by (simp add: unat_of_nat)

lemma unat_reg_index:
  fixes base :: nat
  assumes "base + 4 * i < 2 ^ 32" and "4 dvd base"
  shows "unat ((word_of_nat base + word_of_nat i * 4 :: uint32_t) div 4) = base div 4 + i"
proof -
  have e: "(word_of_nat base + word_of_nat i * 4 :: uint32_t) = word_of_nat (base + 4 * i)"
    by simp
  have "unat ((word_of_nat base + word_of_nat i * 4 :: uint32_t) div 4) =
        unat (word_of_nat (base + 4 * i) :: uint32_t) div unat (4 :: uint32_t)"
    unfolding e by (rule unat_div)
  also have "\<dots> = (base + 4 * i) div 4"
    by (simp only: unat_word_of_nat_32 [OF assms(1)]) simp
  also have "\<dots> = base div 4 + i" using assms(2) by auto
  finally show ?thesis .
qed

lemma unat_act_index:
  assumes "i < 2048"
  shows "unat ((REG_ACT_BASE + word_of_nat i * 4) div 4) = 32 + i"
proof -
  have "REG_ACT_BASE = word_of_nat 128" by (simp add: REG_ACT_BASE_def)
  then show ?thesis using unat_reg_index [of 128 i] assms by simp
qed

lemma unat_res_index:
  assumes "i < 1024"
  shows "unat ((REG_RES_BASE + word_of_nat i * 4) div 4) = 4096 + i"
proof -
  have "REG_RES_BASE = word_of_nat 16384" by (simp add: REG_RES_BASE_def)
  then show ?thesis using unat_reg_index [of 16384 i] assms by simp
qed

lemma write_activation_eq:
  assumes "i < 2048"
  shows "write_activation activations i d =
           Some (d\<lparr>act_buf := (act_buf d)(i := ucast (activations ! i))\<rparr>)"
proof -
  let ?w = "(REG_ACT_BASE + word_of_nat i * 4) div 4"
  have u: "unat ?w = 32 + i" using assms by (rule unat_act_index)
  have "?w \<noteq> REG_CTRL div 4" "?w \<noteq> REG_WEIGHT_BASE div 4" "?w \<noteq> REG_DIM_M div 4"
    "?w \<noteq> REG_DIM_K div 4" "?w \<noteq> REG_SHIFT_AMT div 4"
    using u by (auto simp: REG_CTRL_def REG_WEIGHT_BASE_def REG_DIM_M_def REG_DIM_K_def
        REG_SHIFT_AMT_def)
  moreover have "REG_ACT_BASE div 4 \<le> ?w"
    "?w < REG_ACT_BASE div 4 + word_of_int FPGA_MAX_DIM_K"
    using u assms by (simp_all add: word_le_nat_alt word_less_nat_alt REG_ACT_BASE_def FPGA_MAX_DIM_K_def)
  moreover have "unat (?w - REG_ACT_BASE div 4) = i"
  proof -
    have "REG_ACT_BASE div 4 \<le> ?w" by fact
    then have "unat (?w - REG_ACT_BASE div 4) = unat ?w - unat (REG_ACT_BASE div 4)"
      by (rule unat_sub)
    then show ?thesis using u by (simp add: REG_ACT_BASE_def)
  qed
  ultimately show ?thesis
    by (simp add: write_activation_def fpga_reg_write_def)
qed

lemma reg_write_simps:
  "fpga_reg_write REG_WEIGHT_BASE v d = Some (d\<lparr>weight_base_reg := v\<rparr>)"
  "fpga_reg_write REG_DIM_M v d = Some (d\<lparr>dim_m_reg := v\<rparr>)"
  "fpga_reg_write REG_DIM_K v d = Some (d\<lparr>dim_k_reg := v\<rparr>)"
  "fpga_reg_write REG_SHIFT_AMT v d = Some (d\<lparr>shift_amt_reg := v\<rparr>)"
  "fpga_reg_write REG_CTRL 0x1 d = Some (d\<lparr>launches := launches d @ [current_launch d], polls := 0\<rparr>)"
  by (simp_all add: fpga_reg_write_def REG_CTRL_def REG_WEIGHT_BASE_def REG_DIM_M_def
      REG_DIM_K_def REG_SHIFT_AMT_def)

lemma read_status_eq:
  "launches d \<noteq> [] \<Longrightarrow> fpga_reg_read hw REG_STATUS d =
     Some (status_word hw (length (launches d) - 1) (last (launches d)) (polls d),
           d\<lparr>polls := polls d + 1\<rparr>)"
  by (simp add: fpga_reg_read_def Let_def)

lemma read_result_word_eq:
  assumes "launches d \<noteq> []" "i < 1024"
  shows "fpga_reg_read hw (REG_RES_BASE + word_of_nat i * 4) d =
     Some (result_word hw (length (launches d) - 1) (last (launches d)) i, d)"
proof -
  let ?w = "(REG_RES_BASE + word_of_nat i * 4) div 4"
  have u: "unat ?w = 4096 + i" using assms(2) by (rule unat_res_index)
  have "?w \<noteq> REG_STATUS div 4"
    using u by (auto simp: REG_STATUS_def)
  moreover have "REG_RES_BASE div 4 \<le> ?w"
    "?w < REG_RES_BASE div 4 + word_of_int FPGA_MAX_DIM_M"
    using u assms by (simp_all add: word_le_nat_alt word_less_nat_alt REG_RES_BASE_def FPGA_MAX_DIM_M_def)
  moreover have "unat (?w - REG_RES_BASE div 4) = i"
  proof -
    have "REG_RES_BASE div 4 \<le> ?w" by fact
    then have "unat (?w - REG_RES_BASE div 4) = unat ?w - unat (REG_RES_BASE div 4)"
      by (rule unat_sub)
    then show ?thesis using u by (simp add: REG_RES_BASE_def)
  qed
  ultimately show ?thesis using assms(1)
    by (simp add: fpga_reg_read_def Let_def)
qed


lemma fold_write_activation:
  "fold (\<lambda>i d. d\<lparr>act_buf := (act_buf d)(i := ucast (activations ! i))\<rparr>) [0..<n] d =
     d\<lparr>act_buf := (\<lambda>i. if i < n then ucast (activations ! i) else act_buf d i)\<rparr>"
proof (induction n)
  case 0
  show ?case by simp
next
  case (Suc n)
  have "(\<lambda>i. if i < n then ucast (activations ! i) else act_buf d i)(n := ucast (activations ! n)) =
        (\<lambda>i. if i < Suc n then ucast (activations ! i) else act_buf d i)"
    by (auto simp: fun_eq_iff)
  then show ?case by (simp add: Suc.IH del: fun_upd_apply)
qed

lemma write_activations_eq:
  assumes "n \<le> 2048"
  shows "ofold (write_activation activations) [0..<n] d =
     Some (d\<lparr>act_buf := (\<lambda>i. if i < n then ucast (activations ! i) else act_buf d i)\<rparr>)"
proof -
  have "ofold (write_activation activations) [0..<n] d =
      Some (fold (\<lambda>i d. d\<lparr>act_buf := (act_buf d)(i := ucast (activations ! i))\<rparr>) [0..<n] d)"
    by (rule ofold_total) (use assms in \<open>simp add: write_activation_eq\<close>)
  then show ?thesis by (simp only: fold_write_activation)
qed

lemma fpga_wait_done_eq:
  assumes "launches d \<noteq> []"
  shows "\<exists>q. fpga_wait_done hw t d =
           Some (if \<exists>p. int p * 10 < t \<and>
                        status_word hw (length (launches d) - 1) (last (launches d)) (polls d + p)
                          AND 0x2 \<noteq> 0
                 then 0 else - 1,
                 d\<lparr>polls := q\<rparr>)"
  using assms
proof (induction hw t d rule: fpga_wait_done.induct)
  case (1 hw t d)
  let ?st = "\<lambda>p. status_word hw (length (launches d) - 1) (last (launches d)) p"
  show ?case
  proof (cases "0 < t")
    case False
    then have "\<not> (\<exists>p. int p * 10 < t \<and> ?st (polls d + p) AND 0x2 \<noteq> 0)" by auto
    moreover have "fpga_wait_done hw t d = Some (- 1, d\<lparr>polls := polls d\<rparr>)"
      using False by (subst fpga_wait_done.simps) simp
    ultimately show ?thesis by (simp only: if_False) blast
  next
    case True
    note rd = read_status_eq [OF "1.prems", of hw]
    show ?thesis
    proof (cases "?st (polls d) AND 0x2 \<noteq> 0")
      case ready: True
      have "int 0 * 10 < t \<and> ?st (polls d + 0) AND 0x2 \<noteq> 0" using True ready by simp
      then have ex: "\<exists>p. int p * 10 < t \<and> ?st (polls d + p) AND 0x2 \<noteq> 0" by blast
      have "fpga_wait_done hw t d = Some (0, d\<lparr>polls := polls d + 1\<rparr>)"
        using True ready by (subst fpga_wait_done.simps) (simp add: rd)
      then show ?thesis using ex by (simp only: if_True) blast
    next
      case busy: False
      let ?d' = "d\<lparr>polls := polls d + 1\<rparr>"
      have step: "fpga_wait_done hw t d = fpga_wait_done hw (t - 10) ?d'"
        using True busy by (subst fpga_wait_done.simps) (simp add: rd)
      have "launches ?d' \<noteq> []" using "1.prems" by simp
      from "1.IH" [OF True rd refl busy this]
      obtain q where q: "fpga_wait_done hw (t - 10) ?d' =
           Some (if \<exists>p. int p * 10 < t - 10 \<and> ?st (polls d + 1 + p) AND 0x2 \<noteq> 0
                 then 0 else - 1, ?d'\<lparr>polls := q\<rparr>)"
        by auto
      have "(\<exists>p. int p * 10 < t - 10 \<and> ?st (polls d + 1 + p) AND 0x2 \<noteq> 0) \<longleftrightarrow>
            (\<exists>p. int p * 10 < t \<and> ?st (polls d + p) AND 0x2 \<noteq> 0)" (is "?L \<longleftrightarrow> ?R")
      proof
        assume ?L
        then obtain p where "int p * 10 < t - 10" "?st (polls d + 1 + p) AND 0x2 \<noteq> 0" by blast
        then have "int (Suc p) * 10 < t \<and> ?st (polls d + Suc p) AND 0x2 \<noteq> 0" by simp
        then show ?R by blast
      next
        assume ?R
        then obtain p where p: "int p * 10 < t" "?st (polls d + p) AND 0x2 \<noteq> 0" by blast
        with busy have "p \<noteq> 0" by (cases p) auto
        then obtain p' where "p = Suc p'" by (cases p) auto
        with p have "int p' * 10 < t - 10 \<and> ?st (polls d + 1 + p') AND 0x2 \<noteq> 0" by simp
        then show ?L by blast
      qed
      with q step have "fpga_wait_done hw t d =
           Some (if \<exists>p. int p * 10 < t \<and> ?st (polls d + p) AND 0x2 \<noteq> 0 then 0 else - 1,
                 d\<lparr>polls := q\<rparr>)"
        by simp
      then show ?thesis by blast
    qed
  qed
qed

subsection \<open>One tile\<close>

lemma ofold_snoc:
  "ofold f (xs @ [x]) s = (case ofold f xs s of None \<Rightarrow> None | Some s' \<Rightarrow> f x s')"
  by (induction xs arbitrary: s) (simp_all split: option.splits)

lemma length_fold_update [simp]:
  "length (fold (\<lambda>i rs. rs[r + i := f i]) [0..<n] rs) = length rs"
  by (induction n) simp_all

lemma nth_fold_update:
  "j < length rs \<Longrightarrow> fold (\<lambda>i rs. rs[r + i := f i]) [0..<n] rs ! j =
     (if r \<le> j \<and> j < r + n then f (j - r) else rs ! j)"
proof (induction n)
  case 0
  then show ?case by auto
next
  case (Suc n)
  let ?xs = "fold (\<lambda>i rs. rs[r + i := f i]) [0..<n] rs"
  have step: "fold (\<lambda>i rs. rs[r + i := f i]) [0..<Suc n] rs = ?xs[r + n := f n]" by simp
  show ?case
  proof (cases "j = r + n")
    case True
    then have "?xs[r + n := f n] ! j = f n" using Suc.prems by simp
    with True show ?thesis unfolding step by simp
  next
    case False
    then have "?xs[r + n := f n] ! j = ?xs ! j" by simp
    with False Suc show ?thesis unfolding step by auto
  qed
qed

lemma read_results_eq:
  assumes "launches d \<noteq> []" and "n \<le> 1024"
  shows "ofold (read_result hw r) [0..<n] (results, d) =
     Some (fold (\<lambda>i rs. rs[r + i := result_word hw (length (launches d) - 1) (last (launches d)) i])
             [0..<n] results, d)"
  using assms(2)
proof (induction n)
  case 0
  show ?case by simp
next
  case (Suc n)
  then have "n < 1024" "n \<le> 1024" by simp_all
  with Suc.IH show ?case
    by (simp add: ofold_snoc read_result_def read_result_word_eq [OF assms(1)])
qed

lemma timed_out_iff:
  "timed_out hw n l \<longleftrightarrow> \<not> (\<exists>p. int p * 10 < 1000000 \<and> status_word hw n l (0 + p) AND 0x2 \<noteq> 0)"
proof -
  have "int p * 10 < 1000000 \<longleftrightarrow> p < 100000" for p by arith
  then show ?thesis by (simp add: timed_out_def)
qed

lemma run_tile_eq:
  fixes twb :: uint32_t and d :: fpga and tile_m :: int
  assumes "0 < tile_m" "tile_m \<le> 1024"
  defines "l \<equiv> \<lparr>l_weight_base = twb, l_dim_m = word_of_int tile_m, l_dim_k = dim_k_reg d,
                 l_shift_amt = shift_amt_reg d, l_act = act_buf d\<rparr>"
  shows "\<exists>q. run_tile hw twb tile_m rows_done (results, err, d) =
     Some (fold (\<lambda>i rs. rs[nat rows_done + i :=
                   (if timed_out hw (length (launches d)) l then 0
                    else result_word hw (length (launches d)) l i)]) [0..<nat tile_m] results,
           if timed_out hw (length (launches d)) l then err @ [rows_done] else err,
           d\<lparr>weight_base_reg := twb, dim_m_reg := word_of_int tile_m,
             launches := launches d @ [l], polls := q\<rparr>)"
proof -
  let ?d3 = "d\<lparr>weight_base_reg := twb, dim_m_reg := word_of_int tile_m,
               launches := launches d @ [l], polls := 0\<rparr>"
  have w: "do { d \<leftarrow> fpga_reg_write REG_WEIGHT_BASE twb d;
                d \<leftarrow> fpga_reg_write REG_DIM_M (word_of_int tile_m) d;
                fpga_reg_write REG_CTRL 0x1 d } = Some ?d3"
    by (simp add: reg_write_simps current_launch_def l_def)
  have ne: "launches ?d3 \<noteq> []" by simp
  from fpga_wait_done_eq [OF ne, of hw 1000000] obtain q where
    wd0: "fpga_wait_done hw 1000000 ?d3 =
           Some (if \<exists>p. int p * 10 < 1000000 \<and>
                        status_word hw (length (launches ?d3) - 1) (last (launches ?d3))
                          (polls ?d3 + p) AND 0x2 \<noteq> 0
                 then 0 else - 1, ?d3\<lparr>polls := q\<rparr>)"
    by blast
  have cond: "(\<exists>p. int p * 10 < 1000000 \<and>
                 status_word hw (length (launches ?d3) - 1) (last (launches ?d3))
                   (polls ?d3 + p) AND 0x2 \<noteq> 0) \<longleftrightarrow>
              \<not> timed_out hw (length (launches d)) l"
    unfolding timed_out_iff by simp
  have wd: "fpga_wait_done hw 1000000 ?d3 =
           Some (if timed_out hw (length (launches d)) l then - 1 else 0, ?d3\<lparr>polls := q\<rparr>)"
    unfolding wd0 cond by simp
  let ?d4 = "d\<lparr>weight_base_reg := twb, dim_m_reg := word_of_int tile_m,
               launches := launches d @ [l], polls := q\<rparr>"
  have d4: "?d3\<lparr>polls := q\<rparr> = ?d4" by simp
  show ?thesis
  proof (cases "timed_out hw (length (launches d)) l")
    case True
    then have "run_tile hw twb tile_m rows_done (results, err, d) =
        Some (zero_fill results (nat rows_done) (nat tile_m), err @ [rows_done], ?d4)"
      by (simp add: run_tile_def reg_write_simps current_launch_def l_def [symmetric] wd)
    with True show ?thesis by (simp add: zero_fill_def) blast
  next
    case False
    have ne4: "launches ?d4 \<noteq> []" by simp
    have n: "nat tile_m \<le> 1024" using assms(2) by simp
    have "run_tile hw twb tile_m rows_done (results, err, d) =
        Some (fold (\<lambda>i rs. rs[nat rows_done + i := result_word hw (length (launches d)) l i])
                [0..<nat tile_m] results, err, ?d4)"
      using False
      by (simp add: run_tile_def reg_write_simps current_launch_def l_def [symmetric] wd
            read_results_eq [OF ne4 n])
    with False show ?thesis by simp blast
  qed
qed

subsection \<open>The tile loop\<close>

lemma n_chunks_le: "M \<le> 1024 * int j \<Longrightarrow> n_chunks M \<le> j"
  unfolding n_chunks_def by linarith

lemma n_chunks_gt: "1024 * int j < M \<Longrightarrow> j < n_chunks M"
  unfolding n_chunks_def by linarith

lemma chunk_div: "1024 * j \<le> r \<Longrightarrow> r < 1024 * Suc j \<Longrightarrow> r div 1024 = (j::nat)"
  by (rule div_nat_eqI) simp_all

lemma chunk_mod: "1024 * j \<le> r \<Longrightarrow> r < 1024 * Suc j \<Longrightarrow> r mod 1024 = r - 1024 * (j::nat)"
  using chunk_div [of j r] by (simp add: modulo_nat_def)

lemma in_chunk:
  "1024 * int j < M \<Longrightarrow>
   (1024 * j \<le> r \<and> r < 1024 * j + nat (min (M - 1024 * int j) 1024)) \<longleftrightarrow>
   (1024 * j \<le> r \<and> r < 1024 * Suc j \<and> r < nat M)"
  by auto

lemma below_chunk:
  "1024 * int j < M \<Longrightarrow>
   \<not> (1024 * j \<le> r \<and> r < 1024 * j + nat (min (M - 1024 * int j) 1024)) \<Longrightarrow>
   (r < 1024 * Suc j \<and> r < nat M) \<longleftrightarrow> (r < 1024 * j \<and> r < nat M)"
  by auto

lemma tile_step:
  assumes inv: "tile_inv hw d0 wb M stride res0 j s"
    and lt: "1024 * int j < M"
  shows "\<exists>s'. run_tile hw (wb + word_of_int (1024 * int j) * word_of_int stride)
                 (if FPGA_MAX_DIM_M < M - 1024 * int j then FPGA_MAX_DIM_M else M - 1024 * int j)
                 (1024 * int j) s = Some s' \<and>
              tile_inv hw d0 wb M stride res0 (Suc j) s'"
proof -
  obtain results err d where s: "s = (results, err, d)" by (cases s) auto
  define tile_m where "tile_m = min (M - 1024 * int j) 1024"
  have tm: "(if FPGA_MAX_DIM_M < M - 1024 * int j then FPGA_MAX_DIM_M else M - 1024 * int j) = tile_m"
    by (simp add: tile_m_def FPGA_MAX_DIM_M_def min_def)
  have tm_pos: "0 < tile_m" and tm_le: "tile_m \<le> 1024" using lt by (simp_all add: tile_m_def)
  from inv have len: "length results = length res0"
    and vals: "\<And>r. r < length res0 \<Longrightarrow> results ! r =
            (if r < 1024 * j \<and> r < nat M then chunk_value hw d0 wb M stride r else res0 ! r)"
    and err: "err = map (\<lambda>c. 1024 * int c) (filter (chunk_timed_out hw d0 wb M stride) [0..<j])"
    and ls: "launches d = launches d0 @ map (chunk_launch d0 wb M stride) [0..<j]"
    and regs: "dim_k_reg d = dim_k_reg d0" "shift_amt_reg d = shift_amt_reg d0" "act_buf d = act_buf d0"
    by (simp_all add: tile_inv_def s)
  let ?l = "chunk_launch d0 wb M stride j"
  have l: "\<lparr>l_weight_base = wb + word_of_int (1024 * int j) * word_of_int stride,
            l_dim_m = word_of_int tile_m, l_dim_k = dim_k_reg d,
            l_shift_amt = shift_amt_reg d, l_act = act_buf d\<rparr> = ?l"
    by (simp add: chunk_launch_def regs tile_m_def)
  have n: "length (launches d) = length (launches d0) + j" by (simp add: ls)
  have T: "timed_out hw (length (launches d0) + j) ?l = chunk_timed_out hw d0 wb M stride j"
    by (simp add: chunk_timed_out_def)
  let ?v = "\<lambda>i. if chunk_timed_out hw d0 wb M stride j then 0
                 else result_word hw (length (launches d0) + j) ?l i"
  from run_tile_eq [OF tm_pos tm_le, of hw "wb + word_of_int (1024 * int j) * word_of_int stride"
      "1024 * int j" results err d]
  obtain q where run: "run_tile hw (wb + word_of_int (1024 * int j) * word_of_int stride) tile_m
        (1024 * int j) (results, err, d) =
      Some (fold (\<lambda>i rs. rs[nat (1024 * int j) + i := ?v i]) [0..<nat tile_m] results,
            if chunk_timed_out hw d0 wb M stride j then err @ [1024 * int j] else err,
            d\<lparr>weight_base_reg := wb + word_of_int (1024 * int j) * word_of_int stride,
              dim_m_reg := word_of_int tile_m, launches := launches d @ [?l], polls := q\<rparr>)"
    unfolding l T n by blast
  let ?res' = "fold (\<lambda>i rs. rs[nat (1024 * int j) + i := ?v i]) [0..<nat tile_m] results"
  have nj: "nat (1024 * int j) = 1024 * j" by simp
  have v': "?res' ! r = (if r < 1024 * Suc j \<and> r < nat M then chunk_value hw d0 wb M stride r
                          else res0 ! r)" if r: "r < length res0" for r
  proof -
    have upd: "?res' ! r = (if 1024 * j \<le> r \<and> r < 1024 * j + nat tile_m then ?v (r - 1024 * j)
                       else results ! r)"
      using r len by (simp only: nj nth_fold_update)
    show ?thesis
    proof (cases "1024 * j \<le> r \<and> r < 1024 * j + nat tile_m")
      case True
      then have a: "1024 * j \<le> r \<and> r < 1024 * Suc j \<and> r < nat M"
        unfolding tile_m_def in_chunk [OF lt] .
      then have dm: "r div 1024 = j" "r mod 1024 = r - 1024 * j"
        by (simp_all add: chunk_div chunk_mod)
      have "chunk_value hw d0 wb M stride r = ?v (r - 1024 * j)"
        unfolding chunk_value_def dm ..
      moreover from True upd have "?res' ! r = ?v (r - 1024 * j)" by (simp only: if_True simp_thms)
      ultimately show ?thesis using a by simp
    next
      case False
      then have eq: "(r < 1024 * Suc j \<and> r < nat M) \<longleftrightarrow> (r < 1024 * j \<and> r < nat M)"
        unfolding tile_m_def by (rule below_chunk [OF lt])
      from False upd have "?res' ! r = results ! r" by (simp only: if_False)
      then show ?thesis unfolding eq using vals [OF r] by simp
    qed
  qed
  have e': "(if chunk_timed_out hw d0 wb M stride j then err @ [1024 * int j] else err) =
      map (\<lambda>c. 1024 * int c) (filter (chunk_timed_out hw d0 wb M stride) [0..<Suc j])"
    by (simp add: err)
  have "tile_inv hw d0 wb M stride res0 (Suc j)
      (?res', if chunk_timed_out hw d0 wb M stride j then err @ [1024 * int j] else err,
       d\<lparr>weight_base_reg := wb + word_of_int (1024 * int j) * word_of_int stride,
         dim_m_reg := word_of_int tile_m, launches := launches d @ [?l], polls := q\<rparr>)"
    unfolding tile_inv_def prod.case e' using v' by (simp add: len ls regs)
  with run show ?thesis unfolding tm s by blast
qed

lemma tile_loop_inv:
  assumes "tile_inv hw d0 wb M stride res0 j s" and "j \<le> n_chunks M"
  shows "\<exists>s'. tile_loop hw wb M stride (min (1024 * int j) M) s = Some s' \<and>
              tile_inv hw d0 wb M stride res0 (n_chunks M) s'"
  using assms
proof (induction "n_chunks M - j" arbitrary: j s)
  case 0
  then have j: "j = n_chunks M" by simp
  have "\<not> 1024 * int j < M" using n_chunks_gt [of j M] j by auto
  then have "min (1024 * int j) M = M" by simp
  then have "tile_loop hw wb M stride (min (1024 * int j) M) s = Some s"
    by (subst tile_loop.simps) simp
  with "0.prems"(1) j show ?case by simp
next
  case (Suc k)
  then have "j < n_chunks M" by simp
  then have lt: "1024 * int j < M" using n_chunks_le [of M j] by force
  then have m: "min (1024 * int j) M = 1024 * int j" by simp
  from tile_step [OF Suc.prems(1) lt] obtain s1 where
    run: "run_tile hw (wb + word_of_int (1024 * int j) * word_of_int stride)
                 (if FPGA_MAX_DIM_M < M - 1024 * int j then FPGA_MAX_DIM_M else M - 1024 * int j)
                 (1024 * int j) s = Some s1"
    and inv1: "tile_inv hw d0 wb M stride res0 (Suc j) s1"
    by blast
  have nxt: "1024 * int j + (if FPGA_MAX_DIM_M < M - 1024 * int j then FPGA_MAX_DIM_M
                             else M - 1024 * int j) = min (1024 * int (Suc j)) M"
    by (simp add: FPGA_MAX_DIM_M_def min_def)
  have step: "tile_loop hw wb M stride (1024 * int j) s =
      tile_loop hw wb M stride (min (1024 * int (Suc j)) M) s1"
    using lt by (subst tile_loop.simps) (simp only: run nxt if_True option.case)
  have "k = n_chunks M - Suc j" using Suc.hyps(2) by simp
  moreover have "Suc j \<le> n_chunks M" using \<open>j < n_chunks M\<close> by simp
  ultimately obtain s' where "tile_loop hw wb M stride (min (1024 * int (Suc j)) M) s1 = Some s'"
    "tile_inv hw d0 wb M stride res0 (n_chunks M) s'"
    using Suc.hyps(1) [OF _ inv1] by blast
  then show ?case unfolding m step by blast
qed

subsection \<open>The whole call\<close>

lemma preamble_eq:
  assumes "0 \<le> K" "K \<le> 2048"
  shows "do { d \<leftarrow> ofold (write_activation activations) [0..<nat K] d;
              d \<leftarrow> fpga_reg_write REG_DIM_K (word_of_int K) d;
              fpga_reg_write REG_SHIFT_AMT 0 d } = Some (configured d activations K)"
proof -
  have "nat K \<le> 2048" using assms by simp
  then show ?thesis
    by (simp add: write_activations_eq reg_write_simps configured_def)
qed

lemma configured_launches [simp]: "launches (configured d activations K) = launches d"
  by (simp add: configured_def)

lemma tile_inv_start: "tile_inv hw d0 wb M stride res0 0 (res0, [], d0)"
  by (simp add: tile_inv_def)

lemma fpga_bitlinear_eq:
  assumes "0 \<le> K" "K \<le> 2048" "nat K \<le> length activations" "0 \<le> M" "length results = nat M"
  shows "\<exists>res d'. fpga_bitlinear hw activations K wb M stride results d =
            Some (res,
                  map (\<lambda>c. 1024 * int c)
                    (filter (chunk_timed_out hw (configured d activations K) wb M stride)
                       [0..<n_chunks M]),
                  d') \<and>
          length res = nat M \<and>
          (\<forall>r<nat M. res ! r = chunk_value hw (configured d activations K) wb M stride r) \<and>
          launches d' = launches d @
             map (chunk_launch (configured d activations K) wb M stride) [0..<n_chunks M]"
proof -
  let ?d1 = "configured d activations K"
  have run: "fpga_bitlinear hw activations K wb M stride results d =
      tile_loop hw wb M stride 0 (results, [], ?d1)"
  proof -
    have "fpga_bitlinear hw activations K wb M stride results d =
        do { d \<leftarrow> do { d \<leftarrow> ofold (write_activation activations) [0..<nat K] d;
                         d \<leftarrow> fpga_reg_write REG_DIM_K (word_of_int K) d;
                         fpga_reg_write REG_SHIFT_AMT 0 d };
             tile_loop hw wb M stride 0 (results, [], d) }"
      using assms(3,5) by (simp add: fpga_bitlinear_def)
    then show ?thesis by (simp only: preamble_eq [OF assms(1,2)] Option.bind.simps)
  qed
  have m: "min (1024 * int 0) M = 0" using assms(4) by simp
  have "(0::nat) \<le> n_chunks M" by simp
  from tile_loop_inv [OF tile_inv_start this, where hw = hw and ?d0.0 = ?d1 and wb = wb
      and stride = stride and ?res0.0 = results]
  obtain s' where s': "tile_loop hw wb M stride (min (1024 * int 0) M) (results, [], ?d1) = Some s'"
    and inv: "tile_inv hw ?d1 wb M stride results (n_chunks M) s'"
    by blast
  obtain res err d' where t: "s' = (res, err, d')" by (cases s') auto
  have cover: "r < 1024 * n_chunks M" if "r < nat M" for r
    using that unfolding n_chunks_def by linarith
  from inv have "length res = nat M"
    and "\<And>r. r < nat M \<Longrightarrow> res ! r = chunk_value hw ?d1 wb M stride r"
    and "err = map (\<lambda>c. 1024 * int c) (filter (chunk_timed_out hw ?d1 wb M stride) [0..<n_chunks M])"
    and "launches d' = launches d @ map (chunk_launch ?d1 wb M stride) [0..<n_chunks M]"
    using cover by (simp_all add: tile_inv_def t assms(5))
  with run s' t m show ?thesis by simp
qed

subsection \<open>Tiling and timeouts\<close>

lemma word_of_row:
  "(word_of_int (1024 * int (r div 1024)) :: uint32_t) * s + word_of_nat (r mod 1024) * s =
     word_of_nat r * s"
proof -
  have "(word_of_int (1024 * int (r div 1024)) :: uint32_t) = word_of_nat (1024 * (r div 1024))"
    by simp
  moreover have "(word_of_nat r :: uint32_t) =
      word_of_nat (1024 * (r div 1024)) + word_of_nat (r mod 1024)"
    by (simp only: of_nat_add [symmetric] mult_div_mod_eq)
  ultimately show ?thesis by (simp only: distrib_right)
qed

text \<open>
  Claim C2. For every \<open>K \<le> 2048\<close> and every \<open>M > 1024\<close>, on an accelerator that computes
  each row from the weights at \<open>WEIGHT_BASE + i * byte_stride\<close>, with \<^verbatim>\<open>stride\<close> the byte
  stride of the rows and every chunk's wait succeeding, the results of the tiled
  \<^verbatim>\<open>fpga_bitlinear\<close> are, row by row, those of a single launch at \<^verbatim>\<open>weight_base\<close> with
  \<open>DIM_M = M\<close> on an accelerator without the limit of 1024, and nothing is reported. Chunk
  \<open>c\<close>, which starts at row \<open>r = 1024 * c\<close>, is launched with
  \<open>WEIGHT_BASE = weight_base + r * stride\<close> and \<open>DIM_M = min (M - r) 1024\<close>, so the last
  chunk is smaller when \<open>M\<close> is no multiple of 1024.
\<close>

theorem fpga_bitlinear_tiling_transparent:
  assumes "0 \<le> K" and "K \<le> 2048" and "length activations = nat K"
    and "1024 < M" and "length results = nat M"
    and stride: "word_of_int stride = byte_stride (word_of_int K)"
    and waits: "\<forall>c<n_chunks M. \<not> chunk_timed_out (rowwise row byte_stride status)
                                  (configured d activations K) wb M stride c"
  shows "\<exists>res d'.
           fpga_bitlinear (rowwise row byte_stride status) activations K wb M stride results d =
             Some (res, [], d') \<and>
           res = map (result_word (rowwise row byte_stride status) (length (launches d))
                        \<lparr>l_weight_base = wb, l_dim_m = word_of_int M, l_dim_k = word_of_int K,
                         l_shift_amt = 0, l_act = act_buf (configured d activations K)\<rparr>)
                   [0..<nat M] \<and>
           launches d' = launches d @
             map (\<lambda>c. \<lparr>l_weight_base = wb + word_of_int (1024 * int c) * word_of_int stride,
                        l_dim_m = word_of_int (min (M - 1024 * int c) 1024),
                        l_dim_k = word_of_int K, l_shift_amt = 0,
                        l_act = act_buf (configured d activations K)\<rparr>)
                 [0..<n_chunks M]"
proof -
  let ?hw = "rowwise row byte_stride status"
  let ?d1 = "configured d activations K"
  have "nat K \<le> length activations" "0 \<le> M" using assms(3,4) by simp_all
  from fpga_bitlinear_eq [OF assms(1,2) this assms(5), of ?hw wb stride d]
  obtain res d' where
    run: "fpga_bitlinear ?hw activations K wb M stride results d =
            Some (res, map (\<lambda>c. 1024 * int c)
                         (filter (chunk_timed_out ?hw ?d1 wb M stride) [0..<n_chunks M]), d')"
    and len: "length res = nat M"
    and val: "\<And>r. r < nat M \<Longrightarrow> res ! r = chunk_value ?hw ?d1 wb M stride r"
    and ls: "launches d' = launches d @ map (chunk_launch ?d1 wb M stride) [0..<n_chunks M]"
    by blast
  have "filter (chunk_timed_out ?hw ?d1 wb M stride) [0..<n_chunks M] = []"
    using waits by (simp add: filter_empty_conv)
  then have run': "fpga_bitlinear ?hw activations K wb M stride results d = Some (res, [], d')"
    using run by simp
  have cl: "chunk_launch ?d1 wb M stride c =
      \<lparr>l_weight_base = wb + word_of_int (1024 * int c) * word_of_int stride,
       l_dim_m = word_of_int (min (M - 1024 * int c) 1024),
       l_dim_k = word_of_int K, l_shift_amt = 0, l_act = act_buf ?d1\<rparr>" for c
    by (simp add: chunk_launch_def configured_def)
  have "res ! r = result_word ?hw (length (launches d))
          \<lparr>l_weight_base = wb, l_dim_m = word_of_int M, l_dim_k = word_of_int K,
           l_shift_amt = 0, l_act = act_buf ?d1\<rparr> r" if r: "r < nat M" for r
  proof -
    have "r div 1024 < n_chunks M" using r unfolding n_chunks_def by linarith
    then have "\<not> chunk_timed_out ?hw ?d1 wb M stride (r div 1024)" using waits by blast
    then have "res ! r = result_word ?hw (length (launches ?d1) + r div 1024)
        (chunk_launch ?d1 wb M stride (r div 1024)) (r mod 1024)"
      using val [OF r] by (simp add: chunk_value_def)
    also have "\<dots> = row (act_buf ?d1) (word_of_int K) 0
        (wb + (word_of_int (1024 * int (r div 1024)) * byte_stride (word_of_int K) +
               word_of_nat (r mod 1024) * byte_stride (word_of_int K)))"
      by (simp add: rowwise_def cl stride add.assoc)
    also have "\<dots> = row (act_buf ?d1) (word_of_int K) 0
        (wb + word_of_nat r * byte_stride (word_of_int K))"
      by (simp only: word_of_row)
    finally show ?thesis by (simp add: rowwise_def)
  qed
  then have "res = map (result_word ?hw (length (launches d))
          \<lparr>l_weight_base = wb, l_dim_m = word_of_int M, l_dim_k = word_of_int K,
           l_shift_amt = 0, l_act = act_buf ?d1\<rparr>) [0..<nat M]"
    using len by (intro nth_equalityI) simp_all
  moreover have "launches d' = launches d @
      map (\<lambda>c. \<lparr>l_weight_base = wb + word_of_int (1024 * int c) * word_of_int stride,
                 l_dim_m = word_of_int (min (M - 1024 * int c) 1024),
                 l_dim_k = word_of_int K, l_shift_amt = 0, l_act = act_buf ?d1\<rparr>)
          [0..<n_chunks M]"
  proof -
    have "chunk_launch ?d1 wb M stride =
      (\<lambda>c. \<lparr>l_weight_base = wb + word_of_int (1024 * int c) * word_of_int stride,
                 l_dim_m = word_of_int (min (M - 1024 * int c) 1024),
                 l_dim_k = word_of_int K, l_shift_amt = 0, l_act = act_buf ?d1\<rparr>)"
      by (rule ext) (rule cl)
    then show ?thesis unfolding ls by (rule arg_cong)
  qed
  ultimately show ?thesis using run' by blast
qed

text \<open>
  Claim C5, amended. In every call of \<^verbatim>\<open>fpga_bitlinear\<close> all chunks are launched, whether
  or not earlier ones timed out; the entries of \<^verbatim>\<open>results\<close> that belong to a chunk whose
  wait timed out are zero and all others hold what the accelerator returned for their
  chunk; and the row offset of each timed-out chunk, and of no other, is reported on
  \<^verbatim>\<open>stderr\<close>, in order. The function returns no status: the report on \<^verbatim>\<open>stderr\<close> is the
  only trace of a timeout.
\<close>

theorem fpga_bitlinear_timeouts:
  assumes "0 \<le> K" and "K \<le> 2048" and "length activations = nat K"
    and "0 \<le> M" and "length results = nat M"
  shows "\<exists>res err d'.
           fpga_bitlinear hw activations K wb M stride results d = Some (res, err, d') \<and>
           length res = nat M \<and>
           (\<forall>r<nat M. res ! r =
              (if chunk_timed_out hw (configured d activations K) wb M stride (r div 1024) then 0
               else result_word hw (length (launches d) + r div 1024)
                      (chunk_launch (configured d activations K) wb M stride (r div 1024))
                      (r mod 1024))) \<and>
           err = map (\<lambda>c. 1024 * int c)
                   (filter (chunk_timed_out hw (configured d activations K) wb M stride)
                      [0..<n_chunks M]) \<and>
           launches d' = launches d @
             map (chunk_launch (configured d activations K) wb M stride) [0..<n_chunks M]"
proof -
  let ?d1 = "configured d activations K"
  have "nat K \<le> length activations" using assms(3) by simp
  from fpga_bitlinear_eq [OF assms(1,2) this assms(4,5), of hw wb stride d]
  obtain res d' where
    run: "fpga_bitlinear hw activations K wb M stride results d =
            Some (res, map (\<lambda>c. 1024 * int c)
                         (filter (chunk_timed_out hw ?d1 wb M stride) [0..<n_chunks M]), d')"
    and len: "length res = nat M"
    and val: "\<And>r. r < nat M \<Longrightarrow> res ! r = chunk_value hw ?d1 wb M stride r"
    and ls: "launches d' = launches d @ map (chunk_launch ?d1 wb M stride) [0..<n_chunks M]"
    by blast
  have "\<forall>r<nat M. res ! r =
      (if chunk_timed_out hw ?d1 wb M stride (r div 1024) then 0
       else result_word hw (length (launches d) + r div 1024)
              (chunk_launch ?d1 wb M stride (r div 1024)) (r mod 1024))"
    using val by (simp add: chunk_value_def)
  with run len ls show ?thesis by blast
qed

subsection \<open>Sample runs\<close>

lemma timed_out_hw_silent: "timed_out hw_silent n l"
  by (simp add: timed_out_def hw_silent_def)

lemma timed_out_hw_zero: "\<not> timed_out hw_zero n l"
proof -
  have "status_word hw_zero n l 0 AND 0x2 \<noteq> 0" by (simp add: hw_zero_def)
  then show ?thesis unfolding timed_out_def by (metis zero_less_numeral)
qed

lemma result_word_hw_zero: "result_word hw_zero n l i = 0"
  by (simp add: hw_zero_def)

lemma n_chunks_1: "n_chunks 1 = 1"
  by (simp add: n_chunks_def)

lemma one_row_run:
  "\<exists>d'. fpga_bitlinear hw [1] 1 wb 1 stride [7] fresh_fpga =
     Some ([if timed_out hw 0 (chunk_launch (configured fresh_fpga [1] 1) wb 1 stride 0) then 0
            else result_word hw 0 (chunk_launch (configured fresh_fpga [1] 1) wb 1 stride 0) 0],
           if timed_out hw 0 (chunk_launch (configured fresh_fpga [1] 1) wb 1 stride 0)
           then [0] else [], d')"
proof -
  from fpga_bitlinear_eq [of 1 "[1]" 1 "[7]" hw wb stride fresh_fpga]
  obtain res d' where
    run: "fpga_bitlinear hw [1] 1 wb 1 stride [7] fresh_fpga =
        Some (res, map (\<lambda>c. 1024 * int c)
                 (filter (chunk_timed_out hw (configured fresh_fpga [1] 1) wb 1 stride)
                    [0..<n_chunks 1]), d')"
    and len: "length res = nat 1"
    and val: "\<And>r. r < nat 1 \<Longrightarrow> res ! r = chunk_value hw (configured fresh_fpga [1] 1) wb 1 stride r"
    by auto
  have "res = [res ! 0]" using len by (cases res) auto
  with val [of 0] have res: "res = [chunk_value hw (configured fresh_fpga [1] 1) wb 1 stride 0]"
    by simp
  show ?thesis unfolding run res n_chunks_1
    by (simp add: chunk_value_def chunk_timed_out_def fresh_fpga_def)
qed

text \<open>
  Claim C5, as stated, fails in its last part: the caller receives no failure signal. On
  one row, an accelerator that never completes and an accelerator that completes with a
  zero accumulator leave the same \<^verbatim>\<open>results\<close>; the two calls differ only in the line on
  \<^verbatim>\<open>stderr\<close>.
\<close>

theorem fpga_bitlinear_no_status_counterexample:
  "map_option fst (fpga_bitlinear hw_silent [1] 1 0x30000000 1 32 [7] fresh_fpga) = Some [0] \<and>
   map_option fst (fpga_bitlinear hw_zero [1] 1 0x30000000 1 32 [7] fresh_fpga) = Some [0] \<and>
   map_option (fst \<circ> snd) (fpga_bitlinear hw_silent [1] 1 0x30000000 1 32 [7] fresh_fpga) = Some [0] \<and>
   map_option (fst \<circ> snd) (fpga_bitlinear hw_zero [1] 1 0x30000000 1 32 [7] fresh_fpga) = Some []"
proof -
  from one_row_run [of hw_silent "0x30000000" 32] obtain d1 where
    "fpga_bitlinear hw_silent [1] 1 0x30000000 1 32 [7] fresh_fpga = Some ([0], [0], d1)"
    by (auto simp: timed_out_hw_silent)
  moreover from one_row_run [of hw_zero "0x30000000" 32] obtain d2 where
    "fpga_bitlinear hw_zero [1] 1 0x30000000 1 32 [7] fresh_fpga = Some ([0], [], d2)"
    by (auto simp: timed_out_hw_zero result_word_hw_zero)
  ultimately show ?thesis by simp
qed

lemma n_chunks_1025: "n_chunks 1025 = 2"
  by (simp add: n_chunks_def)

lemma upt_2: "[0..<2] = [0, Suc 0]"
  by (simp add: upt_rec)

lemma timed_out_first_silent: "timed_out hw_first_silent n l \<longleftrightarrow> n = 0"
proof (cases "n = 0")
  case True
  then show ?thesis by (simp add: timed_out_def hw_first_silent_def)
next
  case False
  then have "status_word hw_first_silent n l 0 AND 0x2 \<noteq> 0" by (simp add: hw_first_silent_def)
  then have "\<not> timed_out hw_first_silent n l" unfolding timed_out_def by (metis zero_less_numeral)
  with False show ?thesis by simp
qed

lemma result_word_first_silent: "result_word hw_first_silent n l i = 9"
  by (simp add: hw_first_silent_def)

theorem fpga_bitlinear_timeouts_witness:
  "(0::int) \<le> 1 \<and> (1::int) \<le> 2048 \<and> length [1 :: int8_t] = nat 1 \<and> (0::int) \<le> 1025 \<and>
   length (replicate 1025 (7 :: int32_t)) = nat 1025 \<and>
   (\<exists>res err d'.
      fpga_bitlinear hw_first_silent [1] 1 0x30000000 1025 32 (replicate 1025 7) fresh_fpga =
        Some (res, err, d') \<and>
      length res = 1025 \<and> res ! 0 = 0 \<and> res ! 1023 = 0 \<and> res ! 1024 = 9 \<and> err = [0] \<and>
      length (launches d') = 2)"
proof -
  let ?d1 = "configured fresh_fpga [1] 1"
  have h: "(0::int) \<le> 1" "(1::int) \<le> 2048" "length [1 :: int8_t] = nat 1" "(0::int) \<le> 1025"
    "length (replicate 1025 (7 :: int32_t)) = nat 1025" by simp_all
  have T: "chunk_timed_out hw_first_silent ?d1 0x30000000 1025 32 c \<longleftrightarrow> c = 0" for c
    by (simp add: chunk_timed_out_def timed_out_first_silent fresh_fpga_def)
  from fpga_bitlinear_timeouts [OF h, of hw_first_silent "0x30000000" 32 fresh_fpga]
  obtain res err d' where
    run: "fpga_bitlinear hw_first_silent [1] 1 0x30000000 1025 32 (replicate 1025 7) fresh_fpga =
        Some (res, err, d')"
    and len: "length res = nat 1025"
    and val: "\<And>r. r < nat 1025 \<Longrightarrow> res ! r = (if r div 1024 = 0 then 0 else 9)"
    and err: "err = map (\<lambda>c. 1024 * int c) (filter (\<lambda>c. c = 0) [0..<n_chunks 1025])"
    and ls: "launches d' = launches fresh_fpga @ map (chunk_launch ?d1 0x30000000 1025 32) [0..<n_chunks 1025]"
    unfolding T result_word_first_silent by blast
  have "res ! 0 = 0" "res ! 1023 = 0" "res ! 1024 = 9"
    using val [of 0] val [of 1023] val [of 1024] by simp_all
  moreover have "err = [0]" unfolding err n_chunks_1025 upt_2 by simp
  moreover have "length (launches d') = 2" unfolding ls n_chunks_1025 by (simp add: fresh_fpga_def)
  ultimately show ?thesis using run len by simp
qed

lemma timed_out_rowwise_done: "\<not> timed_out (rowwise row bs (\<lambda>n l p. 0x2)) n l"
proof -
  have "status_word (rowwise row bs (\<lambda>n l p. 0x2)) n l 0 AND 0x2 \<noteq> 0" by (simp add: rowwise_def)
  then show ?thesis unfolding timed_out_def by (metis zero_less_numeral)
qed

theorem fpga_bitlinear_tiling_transparent_witness:
  "(0::int) \<le> 128 \<and> (128::int) \<le> 2048 \<and> length (replicate 128 (1 :: int8_t)) = nat 128 \<and>
   (1024::int) < 1025 \<and> length (replicate 1025 (0 :: int32_t)) = nat 1025 \<and>
   (word_of_int 32 :: uint32_t) = 32 \<and>
   \<not> chunk_timed_out hw_address (configured fresh_fpga (replicate 128 1) 128) 0x30000000 1025 32 0 \<and>
   \<not> chunk_timed_out hw_address (configured fresh_fpga (replicate 128 1) 128) 0x30000000 1025 32 1 \<and>
   (\<exists>res d'.
      fpga_bitlinear hw_address (replicate 128 1) 128 0x30000000 1025 32 (replicate 1025 0)
        fresh_fpga = Some (res, [], d') \<and>
      res ! 5 = 0x30000000 + 5 * 32 \<and> res ! 1024 = 0x30000000 + 1024 * 32 \<and>
      map l_weight_base (launches d') = [0x30000000, 0x30000000 + 1024 * 32] \<and>
      map l_dim_m (launches d') = [1024, 1])"
proof -
  let ?acts = "replicate 128 (1 :: int8_t)"
  let ?d1 = "configured fresh_fpga ?acts 128"
  have h: "(0::int) \<le> 128" "(128::int) \<le> 2048" "length ?acts = nat 128" "(1024::int) < 1025"
    "length (replicate 1025 (0 :: int32_t)) = nat 1025"
    "(word_of_int 32 :: uint32_t) = (\<lambda>k. 32) (word_of_int 128 :: uint32_t)"
    "\<forall>c<n_chunks 1025. \<not> chunk_timed_out (rowwise (\<lambda>act k s addr. addr) (\<lambda>k. 32) (\<lambda>n l p. 0x2))
        ?d1 0x30000000 1025 32 c"
    by (simp_all add: chunk_timed_out_def timed_out_rowwise_done)
  from fpga_bitlinear_tiling_transparent [OF h]
  obtain res d' where
    run: "fpga_bitlinear hw_address ?acts 128 0x30000000 1025 32 (replicate 1025 0) fresh_fpga =
        Some (res, [], d')"
    and res: "res = map (result_word hw_address (length (launches fresh_fpga))
                \<lparr>l_weight_base = 0x30000000, l_dim_m = word_of_int 1025, l_dim_k = word_of_int 128,
                 l_shift_amt = 0, l_act = act_buf ?d1\<rparr>) [0..<nat 1025]"
    and ls: "launches d' = launches fresh_fpga @
        map (\<lambda>c. \<lparr>l_weight_base = 0x30000000 + word_of_int (1024 * int c) * word_of_int 32,
                   l_dim_m = word_of_int (min (1025 - 1024 * int c) 1024),
                   l_dim_k = word_of_int 128, l_shift_amt = 0, l_act = act_buf ?d1\<rparr>)
            [0..<n_chunks 1025]"
    unfolding hw_address_def [symmetric] by blast
  have "res ! 5 = 0x30000000 + 5 * 32" "res ! 1024 = 0x30000000 + 1024 * 32"
    unfolding res by (simp_all add: hw_address_def rowwise_def)
  moreover have "map l_weight_base (launches d') = [0x30000000, 0x30000000 + 1024 * 32]"
    "map l_dim_m (launches d') = [1024, 1]"
    unfolding ls n_chunks_1025 upt_2 by (simp_all add: fresh_fpga_def)
  moreover have "\<not> chunk_timed_out hw_address ?d1 0x30000000 1025 32 0"
    "\<not> chunk_timed_out hw_address ?d1 0x30000000 1025 32 1"
    by (simp_all add: chunk_timed_out_def hw_address_def timed_out_rowwise_done)
  ultimately show ?thesis using run by simp
qed

end
